theory Spec2Isabelle
  imports Complex_Main "HOL-Library.Log_Nat"
begin

section \<open>The chunker\<close>

text \<open>
  \<^verbatim>\<open>Array.prototype.slice(start, end)\<close> on integer arguments: a negative argument counts
  from the end of the array, both arguments are clamped to the range of the array, and
  an empty array is returned when the clamped end does not exceed the clamped start.
\<close>

definition slice :: "'a list \<Rightarrow> int \<Rightarrow> int \<Rightarrow> 'a list" where
  "slice array start finish =
     (let len = int (length array);
          k = (if start < 0 then max (len + start) 0 else min start len);
          final = (if finish < 0 then max (len + finish) 0 else min finish len)
      in take (nat (final - k)) (drop (nat k) array))"

text \<open>
  The loop of \<^verbatim>\<open>chunkArray\<close>:
  \<^verbatim>\<open>for (let i = 0; i < array.length; i += size) chunks.push(array.slice(i, i + size))\<close>.
  The batch size is an integer here (the source's \<^verbatim>\<open>number\<close> restricted to integral values).
  Nothing in the source bounds the number of iterations, so the loop is a partial function:
  \<open>None\<close> is the loop that never leaves.
\<close>

partial_function (option) chunkArray_loop ::
  "'a list \<Rightarrow> int \<Rightarrow> int \<Rightarrow> 'a list list \<Rightarrow> 'a list list option" where
  "chunkArray_loop array sz i chunks =
     (if i < int (length array)
      then chunkArray_loop array sz (i + sz) (chunks @ [slice array i (i + sz)])
      else Some chunks)"

declare chunkArray_loop.simps [code]

definition chunkArray :: "'a list \<Rightarrow> int \<Rightarrow> 'a list list option" where
  "chunkArray array sz = chunkArray_loop array sz 0 []"

text \<open>The default of the \<^verbatim>\<open>batchSize\<close> option of both hooks.\<close>

definition default_batchSize :: int where
  "default_batchSize = 500"

text \<open>
  A reference partition, used only to reason about the loop: cut \<open>n\<close> elements off the
  front until nothing is left.
\<close>

function chunks_spec :: "nat \<Rightarrow> 'a list \<Rightarrow> 'a list list" where
  "chunks_spec n xs = (if n = 0 \<or> xs = [] then [] else take n xs # chunks_spec n (drop n xs))"
  by pat_completeness auto
termination
  by (relation "measure (\<lambda>(n, xs). length xs)") auto

declare chunks_spec.simps [simp del]

section \<open>Progress\<close>

text \<open>
  The progress value is \<^verbatim>\<open>Math.round((completedCount / batches.length) * 100)\<close>. A
  JavaScript number is an IEEE 754 binary64 value, and the quotient and the product are each
  rounded to the nearest such value, a tie to the one with an even significand. A binary64
  value is a rational number, so the model computes with rationals and rounds explicitly.

  \<open>binade x\<close> is the exponent \<open>e\<close> with \<open>2\<^sup>e \<le> x < 2\<^sup>e\<^sup>+\<^sup>1\<close> of a positive \<open>x\<close>, and
  \<open>double x\<close> is the multiple of \<open>2\<^sup>e\<^sup>-\<^sup>5\<^sup>2\<close> nearest to \<open>x\<close>: the binary64 value nearest to \<open>x\<close>
  for every \<open>x\<close> in the range of the normal numbers. Every value rounded below lies in that
  range, since an array has fewer than \<open>2\<^sup>3\<^sup>2\<close> elements; the counters themselves are
  integers below \<open>2\<^sup>5\<^sup>3\<close> and are binary64 values as they are.
\<close>

definition binade :: "rat \<Rightarrow> int" where
  "binade x = (if 1 \<le> x then bitlen \<lfloor>x\<rfloor> - 1 else - bitlen (\<lceil>1 / x\<rceil> - 1))"

definition round_half_even :: "rat \<Rightarrow> int" where
  "round_half_even q =
     (let f = \<lfloor>q\<rfloor>; d = q - of_int f
      in if d < 1 / 2 then f else if 1 / 2 < d then f + 1 else if even f then f else f + 1)"

definition double :: "rat \<Rightarrow> rat" where
  "double x =
     (if x = 0 then 0
      else let u = 2 powi (binade \<bar>x\<bar> - 52)
           in sgn x * (of_int (round_half_even (\<bar>x\<bar> / u)) * u))"

text \<open>
  \<^verbatim>\<open>Math.round\<close> of a binary64 value \<open>x\<close> is the integer \<open>\<lfloor>x + 1/2\<rfloor>\<close>, computed exactly: the
  nearest integer, a tie towards plus infinity.
\<close>

definition Math_round :: "rat \<Rightarrow> int" where
  "Math_round x = \<lfloor>x + 1 / 2\<rfloor>"

definition progress_of :: "nat \<Rightarrow> nat \<Rightarrow> int" where
  "progress_of completedCount len =
     Math_round (double (double (of_nat completedCount / of_nat len) * 100))"

section \<open>The imperative orchestrator (useBatchMutation)\<close>

record ('d, 'e) BatchMutationResult =
  data :: "'d list"
  totalBatches :: nat
  completedBatches :: nat
  errors :: "'e list"

text \<open>
  What the handlers attached to one batch's promise return:
  \<^verbatim>\<open>{ success: true, data: result, index }\<close> or \<^verbatim>\<open>{ success: false, error, index }\<close>.
\<close>

datatype ('d, 'e) batch_outcome = Success 'd nat | Failure 'e nat

fun success :: "('d, 'e) batch_outcome \<Rightarrow> bool" where
  "success (Success result index) = True"
| "success (Failure error index) = False"

text \<open>
  The caller's \<^verbatim>\<open>mutationFn\<close> returns a promise. The model is given how the promise of the
  call for batch \<open>index\<close> settles: \<open>Inr result\<close> when it fulfils, \<open>Inl error\<close> when it rejects.
\<close>

type_synonym ('v, 'd, 'e) batch_fn = "nat \<Rightarrow> 'v list \<Rightarrow> 'e + 'd"

text \<open>
  The state of one invocation while its batches are in flight: the shared counter
  \<^verbatim>\<open>completedCount\<close>, every value passed to \<^verbatim>\<open>setProgress\<close> so far (the last one is the
  current progress), and the slots of \<^verbatim>\<open>Promise.all\<close>, which keeps the value of each promise
  at the position of the promise in its argument.
\<close>

record ('d, 'e) invocation =
  completedCount :: nat
  progress_log :: "int list"
  settled :: "('d, 'e) batch_outcome option list"

text \<open>
  \<^verbatim>\<open>setProgress(0)\<close>, then \<^verbatim>\<open>batches.map\<close> calls \<^verbatim>\<open>mutationFn\<close> once for every batch; no
  promise has settled yet.
\<close>

definition dispatch :: "'v list list \<Rightarrow> ('d, 'e) invocation" where
  "dispatch batches =
     \<lparr>completedCount = 0, progress_log = [0], settled = replicate (length batches) None\<rparr>"

text \<open>
  The value of the promise built for batch \<open>index\<close> by \<^verbatim>\<open>.then(...).catch(...)\<close>: both
  handlers return a tagged outcome, so this promise always fulfils.
\<close>

definition handled :: "('v, 'd, 'e) batch_fn \<Rightarrow> 'v list list \<Rightarrow> nat \<Rightarrow> ('d, 'e) batch_outcome" where
  "handled mutationFn batches index =
     (case mutationFn index (batches ! index) of
        Inr result \<Rightarrow> Success result index
      | Inl error \<Rightarrow> Failure error index)"

text \<open>
  The promise of batch \<open>index\<close> settles: its \<^verbatim>\<open>then\<close> or its \<^verbatim>\<open>catch\<close> handler increments the
  counter and sets the progress, and \<^verbatim>\<open>Promise.all\<close> records the outcome. A promise settles
  once, and only a dispatched batch has a promise.
\<close>

definition settle ::
  "('v, 'd, 'e) batch_fn \<Rightarrow> 'v list list \<Rightarrow> nat \<Rightarrow> ('d, 'e) invocation \<Rightarrow> ('d, 'e) invocation" where
  "settle mutationFn batches index st =
     (if index < length batches \<and> settled st ! index = None
      then
        let c = completedCount st + 1
        in st\<lparr>completedCount := c,
              progress_log := progress_log st @ [progress_of c (length batches)],
              settled := (settled st)[index := Some (handled mutationFn batches index)]\<rparr>
      else st)"

text \<open>The current value of the \<^verbatim>\<open>progress\<close> state: the argument of the last \<^verbatim>\<open>setProgress\<close>.\<close>

definition progress :: "('d, 'e) invocation \<Rightarrow> int" where
  "progress st = last (progress_log st)"

text \<open>The body of \<^verbatim>\<open>results.forEach\<close>: push to \<^verbatim>\<open>successfulResults\<close> or to \<^verbatim>\<open>errors\<close>.\<close>

fun collect :: "('d, 'e) batch_outcome \<Rightarrow> 'd list \<times> 'e list \<Rightarrow> 'd list \<times> 'e list" where
  "collect (Success result index) (successfulResults, errs) = (successfulResults @ [result], errs)"
| "collect (Failure error index) (successfulResults, errs) = (successfulResults, errs @ [error])"

text \<open>
  What follows \<^verbatim>\<open>await Promise.all(batchPromises)\<close>: the outcomes are partitioned, the first
  error is thrown (\<open>Inl\<close>) when nothing succeeded and something failed, and the aggregated
  result is returned otherwise.
\<close>

definition aggregate ::
  "'v list list \<Rightarrow> ('d, 'e) batch_outcome list \<Rightarrow> 'e + ('d, 'e) BatchMutationResult" where
  "aggregate batches results =
     (case fold collect results ([], []) of
        (successfulResults, errs) \<Rightarrow>
          (case errs of
             error # rest \<Rightarrow>
               if length successfulResults = 0
               then Inl error
               else Inr \<lparr>data = successfulResults, totalBatches = length batches,
                         completedBatches = length (filter success results), errors = errs\<rparr>
           | [] \<Rightarrow>
               Inr \<lparr>data = successfulResults, totalBatches = length batches,
                    completedBatches = length (filter success results), errors = errs\<rparr>))"

text \<open>
  One run of the \<^verbatim>\<open>mutationFn\<close> given to \<^verbatim>\<open>useMutation\<close>, that is of
  \<^verbatim>\<open>mutateBatchAsync(items)\<close>: how it settles (\<open>Inl\<close> a rejection, \<open>Inr\<close> the resolved
  value), every value passed to \<^verbatim>\<open>setProgress\<close>, and the batches the caller's operation was
  called with.
\<close>

record ('v, 'd, 'e) run =
  outcome :: "'e + ('d, 'e) BatchMutationResult"
  progress_calls :: "int list"
  dispatched :: "'v list list"

text \<open>
  \<open>order\<close> lists the batch indices in the order in which their promises settle. The run is
  \<open>None\<close> when the invocation never settles: the chunker does not return, or
  \<^verbatim>\<open>Promise.all\<close> waits for a promise that never settles.
\<close>

definition mutateBatchAsync ::
  "('v, 'd, 'e) batch_fn \<Rightarrow> int \<Rightarrow> nat list \<Rightarrow> 'v list \<Rightarrow> ('v, 'd, 'e) run option" where
  "mutateBatchAsync mutationFn batchSize order items =
     (case chunkArray items batchSize of
        None \<Rightarrow> None
      | Some batches \<Rightarrow>
          if length batches = 0
          then Some \<lparr>outcome = Inr \<lparr>data = [], totalBatches = 0, completedBatches = 0, errors = []\<rparr>,
                     progress_calls = [0], dispatched = []\<rparr>
          else
            let st = fold (settle mutationFn batches) order (dispatch batches)
            in (case those (settled st) of
                  None \<Rightarrow> None
                | Some results \<Rightarrow>
                    Some \<lparr>outcome = aggregate batches results,
                          progress_calls = progress_log st,
                          dispatched = batches\<rparr>))"

text \<open>The value a run resolves with, and the error it rejects with.\<close>

definition resolved :: "('v, 'd, 'e) run option \<Rightarrow> ('d, 'e) BatchMutationResult option" where
  "resolved r =
     (case r of
        None \<Rightarrow> None
      | Some run \<Rightarrow> (case outcome run of Inl error \<Rightarrow> None | Inr result \<Rightarrow> Some result))"

definition rejection :: "('v, 'd, 'e) run option \<Rightarrow> 'e option" where
  "rejection r =
     (case r of
        None \<Rightarrow> None
      | Some run \<Rightarrow> (case outcome run of Inl error \<Rightarrow> Some error | Inr result \<Rightarrow> None))"

text \<open>
  Notions used to state and prove the properties of a run: how the promise of every batch
  settles, in batch-index order; the results of the fulfilled and the errors of the rejected
  ones, in that order; and the state of an invocation in which exactly the batches of the
  set \<open>S\<close> have settled.
\<close>

definition batch_results :: "('v, 'd, 'e) batch_fn \<Rightarrow> 'v list list \<Rightarrow> ('e + 'd) list" where
  "batch_results mutationFn batches = map (\<lambda>i. mutationFn i (batches ! i)) [0..<length batches]"

fun fulfilled :: "('e + 'd) list \<Rightarrow> 'd list" where
  "fulfilled [] = []"
| "fulfilled (Inr d # rs) = d # fulfilled rs"
| "fulfilled (Inl e # rs) = fulfilled rs"

fun rejected :: "('e + 'd) list \<Rightarrow> 'e list" where
  "rejected [] = []"
| "rejected (Inr d # rs) = rejected rs"
| "rejected (Inl e # rs) = e # rejected rs"

definition settled_state ::
  "('v, 'd, 'e) batch_fn \<Rightarrow> 'v list list \<Rightarrow> nat set \<Rightarrow> ('d, 'e) invocation" where
  "settled_state mutationFn batches S =
     \<lparr>completedCount = card S,
      progress_log = map (\<lambda>c. progress_of c (length batches)) [0..<Suc (card S)],
      settled = map (\<lambda>i. if i \<in> S then Some (handled mutationFn batches i) else None)
                  [0..<length batches]\<rparr>"

section \<open>The cached orchestrator (useBatchQuery)\<close>

text \<open>
  An element of a query key (\<^verbatim>\<open>unknown[]\<close> in the source): a string, a number or an array
  of items, compared by value.
\<close>

datatype 'v key_part = KString string | KNumber int | KArray "'v list"

text \<open>\<^verbatim>\<open>[...queryKey, 'batch', index, batch]\<close>\<close>

definition batch_queryKey :: "'v key_part list \<Rightarrow> nat \<Rightarrow> 'v list \<Rightarrow> 'v key_part list" where
  "batch_queryKey queryKey index batch =
     queryKey @ [KString ''batch'', KNumber (int index), KArray batch]"

text \<open>The keys of the queries handed to \<^verbatim>\<open>useQueries\<close>, one for every batch.\<close>

definition useBatchQuery_keys :: "'v key_part list \<Rightarrow> 'v list list \<Rightarrow> 'v key_part list list" where
  "useBatchQuery_keys queryKey batches =
     map (\<lambda>(index, batch). batch_queryKey queryKey index batch) (enumerate 0 batches)"

text \<open>
  What the cache collaborator reports for one batch (\<^verbatim>\<open>UseQueryResult\<close>). \<open>None\<close> is
  \<^verbatim>\<open>undefined\<close> for the data and \<^verbatim>\<open>null\<close> for the error.
\<close>

record ('d, 'e) UseQueryResult =
  q_data :: "'d option"
  q_error :: "'e option"
  q_isLoading :: bool
  q_isFetching :: bool
  q_isSuccess :: bool
  q_isError :: bool

text \<open>
  The source tests \<^verbatim>\<open>query.data\<close> and \<^verbatim>\<open>query.error\<close> for truthiness. \<^verbatim>\<open>undefined\<close> and
  \<^verbatim>\<open>null\<close> are falsy; whether a present value is truthy depends on the value, so the test
  on values is a parameter.
\<close>

fun js_truthy :: "('a \<Rightarrow> bool) \<Rightarrow> 'a option \<Rightarrow> bool" where
  "js_truthy truthy None = False"
| "js_truthy truthy (Some x) = truthy x"

text \<open>Truthiness of a JavaScript number (other than NaN) and of an object.\<close>

definition truthy_number :: "int \<Rightarrow> bool" where
  "truthy_number x = (x \<noteq> 0)"

definition truthy_object :: "'a \<Rightarrow> bool" where
  "truthy_object x = True"

text \<open>The body of \<^verbatim>\<open>queries.forEach\<close> in the aggregation of the cached orchestrator.\<close>

definition query_step ::
  "('d \<Rightarrow> bool) \<Rightarrow> ('e \<Rightarrow> bool) \<Rightarrow> ('d, 'e) UseQueryResult \<Rightarrow>
   'd list \<times> 'e list \<times> nat \<Rightarrow> 'd list \<times> 'e list \<times> nat" where
  "query_step truthy_data truthy_error query acc =
     (case acc of (successfulResults, errs, completed) \<Rightarrow>
        if q_isSuccess query \<and> js_truthy truthy_data (q_data query)
        then (successfulResults @ [the (q_data query)], errs, completed + 1)
        else if q_isError query \<and> js_truthy truthy_error (q_error query)
        then (successfulResults, errs @ [the (q_error query)], completed + 1)
        else (successfulResults, errs, completed))"

record ('d, 'e) UseBatchQueryResult =
  aggregated :: "('d, 'e) BatchMutationResult"
  progress_value :: int
  isLoading :: bool
  isFetching :: bool
  isSuccess :: bool
  isError :: bool
  error :: "'e option"

text \<open>
  The value computed by the \<^verbatim>\<open>useMemo\<close> of \<^verbatim>\<open>useBatchQuery\<close> from the batches and the
  state of their queries. (\<^verbatim>\<open>BatchQueryResult\<close> has the fields of \<^verbatim>\<open>BatchMutationResult\<close>.)
\<close>

definition useBatchQuery_result ::
  "('d \<Rightarrow> bool) \<Rightarrow> ('e \<Rightarrow> bool) \<Rightarrow> 'v list list \<Rightarrow> ('d, 'e) UseQueryResult list \<Rightarrow>
   ('d, 'e) UseBatchQueryResult" where
  "useBatchQuery_result truthy_data truthy_error batches queries =
     (case fold (query_step truthy_data truthy_error) queries ([], [], 0) of
        (successfulResults, errs, completed) \<Rightarrow>
          \<lparr>aggregated = \<lparr>data = successfulResults, totalBatches = length batches,
                          completedBatches = length (filter q_isSuccess queries), errors = errs\<rparr>,
           progress_value = (if length batches > 0 then progress_of completed (length batches) else 0),
           isLoading = list_ex q_isLoading queries,
           isFetching = list_ex q_isFetching queries,
           isSuccess = list_all q_isSuccess queries,
           isError = list_ex q_isError queries,
           error = (case find q_isError queries of
                      None \<Rightarrow> None
                    | Some query \<Rightarrow>
                        if js_truthy truthy_error (q_error query) then q_error query else None)\<rparr>)"

text \<open>
  One render of \<^verbatim>\<open>useBatchQuery\<close>: the items are chunked, \<^verbatim>\<open>useQueries\<close> is given one query
  for every batch, and the state of these queries is aggregated. The cache collaborator is the
  function \<open>useQuery\<close>, which gives the state it reports for the query of a key. The render is
  \<open>None\<close> when the chunker does not return.
\<close>

definition useBatchQuery ::
  "('d \<Rightarrow> bool) \<Rightarrow> ('e \<Rightarrow> bool) \<Rightarrow> ('v key_part list \<Rightarrow> ('d, 'e) UseQueryResult) \<Rightarrow>
   'v key_part list \<Rightarrow> int \<Rightarrow> 'v list \<Rightarrow> ('d, 'e) UseBatchQueryResult option" where
  "useBatchQuery truthy_data truthy_error useQuery queryKey batchSize items =
     (case chunkArray items batchSize of
        None \<Rightarrow> None
      | Some batches \<Rightarrow>
          Some (useBatchQuery_result truthy_data truthy_error batches
                  (map useQuery (useBatchQuery_keys queryKey batches))))"

section \<open>Example inputs\<close>

text \<open>
  A per-batch operation that rejects exactly the calls whose batch index is listed, with an
  error that names the batch, and echoes the batch otherwise.
\<close>

definition failing_at :: "nat list \<Rightarrow> (nat, nat list, string \<times> nat) batch_fn" where
  "failing_at bad index batch =
     (if index \<in> set bad then Inl (''failed batch'', index) else Inr batch)"

definition query_success :: "'d \<Rightarrow> ('d, 'e) UseQueryResult" where
  "query_success d =
     \<lparr>q_data = Some d, q_error = None, q_isLoading = False, q_isFetching = False,
      q_isSuccess = True, q_isError = False\<rparr>"

definition query_error :: "'e \<Rightarrow> ('d, 'e) UseQueryResult" where
  "query_error e =
     \<lparr>q_data = None, q_error = Some e, q_isLoading = False, q_isFetching = False,
      q_isSuccess = False, q_isError = True\<rparr>"

text \<open>A per-batch operation whose every call rejects with the given error.\<close>

definition rejecting_with :: "'e \<Rightarrow> ('v, 'd, 'e) batch_fn" where
  "rejecting_with e index batch = Inl e"

text \<open>A per-batch operation whose every call fulfils with the given result.\<close>

definition resolving_with :: "'d \<Rightarrow> ('v, 'd, 'e) batch_fn" where
  "resolving_with d index batch = Inr d"

text \<open>A cache in which the query of every key is in the given state.\<close>

definition cache_all :: "('d, 'e) UseQueryResult \<Rightarrow> 'v key_part list \<Rightarrow> ('d, 'e) UseQueryResult" where
  "cache_all query key = query"

text \<open>The batches of the items \<open>0, \<dots>, n - 1\<close> for the batch size 1.\<close>

definition singleton_batches :: "nat \<Rightarrow> nat list list" where
  "singleton_batches n = map (\<lambda>i. [i]) [0..<n]"

definition query_pending :: "('d, 'e) UseQueryResult" where
  "query_pending =
     \<lparr>q_data = None, q_error = None, q_isLoading = True, q_isFetching = True,
      q_isSuccess = False, q_isError = False\<rparr>"

section \<open>The chunker partitions its input\<close>

lemma chunks_spec_Nil [simp]: "chunks_spec n [] = []"
  by (simp add: chunks_spec.simps)

lemma chunks_spec_step:
  "0 < n \<Longrightarrow> xs \<noteq> [] \<Longrightarrow> chunks_spec n xs = take n xs # chunks_spec n (drop n xs)"
  by (subst chunks_spec.simps) simp

lemma concat_chunks_spec: "0 < n \<Longrightarrow> concat (chunks_spec n xs) = xs"
proof (induction n xs rule: chunks_spec.induct)
  case (1 n xs)
  show ?case
  proof (cases "xs = []")
    case True
    then show ?thesis by simp
  next
    case False
    with 1 show ?thesis by (simp add: chunks_spec_step)
  qed
qed

lemma ceil_div_cases:
  fixes len n :: nat
  assumes "0 < n"
  shows "(len + n - 1) div n = (if len mod n = 0 then len div n else Suc (len div n))"
proof (cases "len mod n = 0")
  case True
  then have "len + n - 1 = (n - 1) + (len div n) * n" using assms by auto
  then have "(len + n - 1) div n = (n - 1) div n + len div n"
    using assms by (simp only: div_mult_self1)
  with True assms show ?thesis by simp
next
  case False
  have "len = len mod n + (len div n) * n" by simp
  then have "len + n - 1 = (len mod n - 1) + (Suc (len div n)) * n" using False by simp
  then have "(len + n - 1) div n = (len mod n - 1) div n + Suc (len div n)"
    using assms by (simp only: div_mult_self1)
  moreover have "len mod n - 1 < n" using assms by (simp add: less_imp_diff_less)
  ultimately show ?thesis using False by simp
qed

lemma ceiling_ratio:
  fixes len :: nat and sz :: int
  assumes "0 < sz"
  shows "\<lceil>(of_nat len :: rat) / of_int sz\<rceil> = int ((len + nat sz - 1) div nat sz)"
proof -
  define n where "n = nat sz"
  have n: "0 < n" "sz = int n" using assms by (simp_all add: n_def)
  have "\<lceil>(of_nat len :: rat) / of_int sz\<rceil> = \<lceil>(of_int (int len) :: rat) / of_int (int n)\<rceil>"
    using n by simp
  also have "\<dots> = - (- int len div int n)" by (rule ceiling_divide_eq_div)
  also have "\<dots> = (if int len mod int n = 0 then int len div int n else int len div int n + 1)"
    using n(1) by (simp add: zdiv_zminus1_eq_if)
  also have "\<dots> = int (if len mod n = 0 then len div n else Suc (len div n))"
    unfolding of_nat_mod[symmetric] of_nat_div[symmetric] by simp
  also have "\<dots> = int ((len + n - 1) div n)" using ceil_div_cases[OF n(1), of len] by simp
  finally show ?thesis by (simp add: n_def)
qed

lemma length_chunks_spec: "0 < n \<Longrightarrow> length (chunks_spec n xs) = (length xs + n - 1) div n"
proof (induction n xs rule: chunks_spec.induct)
  case (1 n xs)
  show ?case
  proof (cases "xs = []")
    case True
    with 1(2) show ?thesis by simp
  next
    case False
    then have pos: "0 < length xs" by simp
    have ih: "length (chunks_spec n (drop n xs)) = (length xs - n + n - 1) div n"
      using 1 False by simp
    show ?thesis
    proof (cases "n \<le> length xs")
      case True
      then have "length xs + n - 1 = (length xs - n + n - 1) + n" using pos by simp
      then have "(length xs + n - 1) div n = Suc ((length xs - n + n - 1) div n)"
        using 1(2) by (simp only: div_add_self2)
      with ih False 1(2) show ?thesis by (simp add: chunks_spec_step)
    next
      case False
      then have a: "length xs - n = 0" and b: "length xs - 1 < n"
        using pos by simp_all
      have "length xs + n - 1 = (length xs - 1) + n" using pos by linarith
      then have "(length xs + n - 1) div n = Suc ((length xs - 1) div n)"
        using 1(2) by (simp only: div_add_self2)
      with b have "(length xs + n - 1) div n = 1" by simp
      moreover have "(length xs - n + n - 1) div n = 0" using a 1(2) by simp
      ultimately show ?thesis using ih \<open>xs \<noteq> []\<close> 1(2) by (simp add: chunks_spec_step)
    qed
  qed
qed

lemma nth_chunks_spec:
  "0 < n \<Longrightarrow> k < length (chunks_spec n xs) \<Longrightarrow> chunks_spec n xs ! k = take n (drop (k * n) xs)"
proof (induction n xs arbitrary: k rule: chunks_spec.induct)
  case (1 n xs)
  from 1(3) have ne: "xs \<noteq> []" by auto
  show ?case
  proof (cases k)
    case 0
    with ne 1(2) show ?thesis by (simp add: chunks_spec_step)
  next
    case (Suc j)
    with 1(3) ne 1(2) have "j < length (chunks_spec n (drop n xs))"
      by (simp add: chunks_spec_step)
    with 1(1)[of j] ne 1(2)
    have "chunks_spec n (drop n xs) ! j = take n (drop (j * n) (drop n xs))" by simp
    with Suc ne 1(2) show ?thesis by (simp add: chunks_spec_step add.commute)
  qed
qed

lemma slice_chunk:
  assumes "0 < sz" "0 \<le> i" "i < int (length array)"
  shows "slice array i (i + sz) = take (nat sz) (drop (nat i) array)"
proof -
  have "nat (min (i + sz) (int (length array)) - i) = min (nat sz) (length array - nat i)"
    using assms by (auto simp: min_def)
  then show ?thesis using assms by (simp add: slice_def min_def)
qed

lemma chunkArray_loop_spec:
  "0 < sz \<Longrightarrow> 0 \<le> i \<Longrightarrow>
   chunkArray_loop array sz i chunks = Some (chunks @ chunks_spec (nat sz) (drop (nat i) array))"
proof (induction "length array - nat i" arbitrary: i chunks rule: less_induct)
  case less
  show ?case
  proof (cases "i < int (length array)")
    case False
    then have "drop (nat i) array = []" by simp
    with False show ?thesis by (subst chunkArray_loop.simps) simp
  next
    case True
    have dec: "length array - nat (i + sz) < length array - nat i"
      using True less.prems by linarith
    have ne: "drop (nat i) array \<noteq> []" using True less.prems by simp
    have "chunkArray_loop array sz i chunks
          = chunkArray_loop array sz (i + sz) (chunks @ [slice array i (i + sz)])"
      using True by (subst chunkArray_loop.simps) simp
    also have "\<dots> = Some ((chunks @ [slice array i (i + sz)])
                      @ chunks_spec (nat sz) (drop (nat (i + sz)) array))"
      using less.hyps[OF dec] less.prems by simp
    also have "drop (nat (i + sz)) array = drop (nat sz) (drop (nat i) array)"
      using less.prems by (simp add: nat_add_distrib add.commute)
    finally show ?thesis
      using ne less.prems True by (simp add: chunks_spec_step slice_chunk)
  qed
qed

lemma chunkArray_spec: "0 < sz \<Longrightarrow> chunkArray array sz = Some (chunks_spec (nat sz) array)"
  using chunkArray_loop_spec[of sz 0 array "[]"] by (simp add: chunkArray_def)

lemma chunkArray_Nil: "chunkArray [] sz = Some []"
  unfolding chunkArray_def by (subst chunkArray_loop.simps) simp

lemma chunk_lengths:
  assumes n: "0 < n" and k: "k < length (chunks_spec n xs)"
  shows "length (chunks_spec n xs ! k) =
           (if Suc k < length (chunks_spec n xs) then n
            else if length xs mod n = 0 then n else length xs mod n)"
proof -
  let ?m = "length (chunks_spec n xs)"
  have m: "?m = (if length xs mod n = 0 then length xs div n else Suc (length xs div n))"
    using length_chunks_spec[OF n, of xs] ceil_div_cases[OF n, of "length xs"] by simp
  have len: "length (chunks_spec n xs ! k) = min n (length xs - k * n)"
    using nth_chunks_spec[OF n k] by (simp add: min.commute)
  have dle: "(length xs div n) * n \<le> length xs" by simp
  have dmod: "length xs - (length xs div n) * n = length xs mod n"
    by (simp add: minus_div_mult_eq_mod)
  show ?thesis
  proof (cases "Suc k < ?m")
    case True
    then have "Suc k \<le> length xs div n" using m by (auto split: if_splits)
    then have "Suc k * n \<le> (length xs div n) * n" by (rule mult_le_mono1)
    then have "k * n + n \<le> (length xs div n) * n" by (simp add: add.commute)
    also note dle
    finally have "k * n + n \<le> length xs" .
    then show ?thesis using True len by simp
  next
    case False
    with k have km: "Suc k = ?m" by simp
    show ?thesis
    proof (cases "length xs mod n = 0")
      case True
      with km m have "Suc k = length xs div n" by simp
      moreover have "(length xs div n) * n = length xs" using True by (simp add: mod_0_imp_dvd)
      ultimately have "Suc k * n = length xs" by simp
      then have "length xs - k * n = n" by simp
      with False True len show ?thesis by simp
    next
      case nz: False
      with km m have "k = length xs div n" by simp
      then have "length xs - k * n = length xs mod n" using dmod by simp
      moreover have "length xs mod n < n" using n by simp
      ultimately show ?thesis using False nz len by simp
    qed
  qed
qed

text \<open>
  Claim C1. For every sequence of items and every positive size, \<open>chunkArray\<close> returns (it
  is a function of its arguments, so it does so deterministically) the empty sequence when
  there are no items, and otherwise \<open>\<lceil>n / size\<rceil>\<close> batches for \<open>n\<close> items; every batch
  but the last has \<open>size\<close> elements, the last has \<open>n mod size\<close> elements, or \<open>size\<close> when
  \<open>size\<close> divides \<open>n\<close>; and the concatenation of the batches in index order is the
  sequence of items, so no element is dropped or duplicated.
\<close>

theorem chunkArray_partition:
  assumes "0 < sz"
  shows "\<exists>chunks. chunkArray items sz = Some chunks
           \<and> (items = [] \<longrightarrow> chunks = [])
           \<and> int (length chunks) = \<lceil>(of_nat (length items) :: rat) / of_int sz\<rceil>
           \<and> concat chunks = items
           \<and> (\<forall>k < length chunks.
                 length (chunks ! k) =
                   (if Suc k < length chunks then nat sz
                    else if length items mod nat sz = 0 then nat sz
                    else length items mod nat sz))"
proof -
  have n: "0 < nat sz" using assms by simp
  let ?cs = "chunks_spec (nat sz) items"
  have "chunkArray items sz = Some ?cs" using assms by (rule chunkArray_spec)
  moreover have "items = [] \<longrightarrow> ?cs = []" by simp
  moreover have "int (length ?cs) = \<lceil>(of_nat (length items) :: rat) / of_int sz\<rceil>"
    using length_chunks_spec[OF n, of items] ceiling_ratio[OF assms, of "length items"] by simp
  moreover have "concat ?cs = items" using n by (rule concat_chunks_spec)
  moreover have "\<forall>k < length ?cs. length (?cs ! k) =
                   (if Suc k < length ?cs then nat sz
                    else if length items mod nat sz = 0 then nat sz
                    else length items mod nat sz)"
    using chunk_lengths[OF n] by blast
  ultimately show ?thesis by blast
qed

theorem chunkArray_partition_witness:
  "(0::int) < 2 \<and> chunkArray [1, 2, 3, 4, 5 :: nat] 2 = Some [[1, 2], [3, 4], [5]]
   \<and> int (length [[1, 2], [3, 4], [5 :: nat]]) = \<lceil>(of_nat (length [1, 2, 3, 4, 5 :: nat]) :: rat) / of_int 2\<rceil>"
proof -
  have h: "(0::int) < 2" by simp
  have v: "chunkArray [1, 2, 3, 4, 5 :: nat] 2 = Some [[1, 2], [3, 4], [5]]"
    by (simp add: chunkArray_def chunkArray_loop.simps slice_def)
  from chunkArray_partition[OF h, of "[1, 2, 3, 4, 5 :: nat]"] v h
  show ?thesis by auto
qed

section \<open>Rounding to binary64\<close>

lemma bitlen_pos: "0 < a \<Longrightarrow> 1 \<le> bitlen a"
  using bitlen_eq_zero_iff[of a] bitlen_nonneg[of a] by linarith

lemma binade_bounds:
  assumes "0 < x"
  shows "2 powi binade x \<le> x" and "x < 2 powi (binade x + 1)"
proof -
  have "2 powi binade x \<le> x \<and> x < 2 powi (binade x + 1)"
  proof (cases "1 \<le> x")
    case True
    define a where "a = \<lfloor>x\<rfloor>"
    have a: "1 \<le> a" using True by (simp add: a_def le_floor_iff)
    then have b: "1 \<le> bitlen a" by (simp add: bitlen_pos)
    have e: "binade x = bitlen a - 1" using True by (simp add: binade_def a_def)
    from bitlen_bounds[of a] a
    have lo: "2 ^ nat (bitlen a - 1) \<le> a" and hi: "a < 2 ^ nat (bitlen a)" by simp_all
    from lo have "(of_int (2 ^ nat (bitlen a - 1)) :: rat) \<le> of_int a" by (simp only: of_int_le_iff)
    also have "\<dots> \<le> x" by (simp add: a_def)
    finally have 1: "2 powi binade x \<le> x"
      using b by (simp add: e power_int_nonneg_exp)
    from hi have "a + 1 \<le> 2 ^ nat (bitlen a)" by simp
    then have "(of_int (a + 1) :: rat) \<le> of_int (2 ^ nat (bitlen a))" by (simp only: of_int_le_iff)
    moreover have "x < of_int (a + 1)" using floor_correct[of x] by (simp add: a_def)
    ultimately have "x < of_int (2 ^ nat (bitlen a))" by linarith
    then have 2: "x < 2 powi (binade x + 1)"
      using b by (simp add: e power_int_nonneg_exp)
    from 1 2 show ?thesis ..
  next
    case False
    define y where "y = 1 / x"
    define k where "k = \<lceil>y\<rceil>"
    have y: "1 < y" using False assms by (simp add: y_def)
    then have k: "2 \<le> k" by (simp add: k_def le_ceiling_iff)
    define m where "m = bitlen (k - 1)"
    have m: "1 \<le> m" using k by (simp add: m_def bitlen_pos)
    have e: "binade x = - m" using False by (simp add: binade_def m_def k_def y_def)
    from bitlen_bounds[of "k - 1"] k
    have lo: "2 ^ nat (m - 1) \<le> k - 1" and hi: "k - 1 < 2 ^ nat m" by (simp_all add: m_def)
    from hi have "k \<le> 2 ^ nat m" by simp
    then have "(of_int k :: rat) \<le> of_int (2 ^ nat m)" by (simp only: of_int_le_iff)
    then have "(of_int k :: rat) \<le> 2 ^ nat m" by simp
    moreover have "y \<le> of_int k" by (simp add: k_def)
    ultimately have yle: "y \<le> 2 ^ nat m" by linarith
    from lo have "(of_int (2 ^ nat (m - 1)) :: rat) \<le> of_int (k - 1)" by (simp only: of_int_le_iff)
    then have "(2 ^ nat (m - 1) :: rat) \<le> of_int (k - 1)" by simp
    moreover have "of_int (k - 1) < y" using ceiling_correct[of y] by (simp add: k_def)
    ultimately have ylo: "2 ^ nat (m - 1) < y" by linarith
    have p1: "(2::rat) powi (- m) = 1 / 2 ^ nat m"
      using m by (simp add: power_int_minus_divide power_int_nonneg_exp)
    have p2: "(2::rat) powi (- m + 1) = 1 / 2 ^ nat (m - 1)"
    proof -
      have "- m + 1 = - (m - 1)" by simp
      then show ?thesis using m by (simp only: power_int_minus_divide) (simp add: power_int_nonneg_exp)
    qed
    have "1 / 2 ^ nat m \<le> x"
    proof -
      have "1 / (2 ^ nat m :: rat) \<le> 1 / y" using yle y by (simp add: frac_le)
      then show ?thesis using assms by (simp add: y_def)
    qed
    moreover have "x < 1 / 2 ^ nat (m - 1)"
    proof -
      have "1 / y < 1 / (2 ^ nat (m - 1) :: rat)" using ylo by (simp add: frac_less2)
      then show ?thesis using assms by (simp add: y_def)
    qed
    ultimately show ?thesis unfolding e p1 p2 by simp
  qed
  then show "2 powi binade x \<le> x" and "x < 2 powi (binade x + 1)" by simp_all
qed

lemma binade_unique:
  assumes "0 < x" "2 powi e \<le> x" "x < 2 powi (e + 1)"
  shows "binade x = e"
proof (rule ccontr)
  assume ne: "binade x \<noteq> e"
  note b = binade_bounds[OF assms(1)]
  show False
  proof (cases "binade x < e")
    case True
    then have "binade x + 1 \<le> e" by simp
    then have "(2::rat) powi (binade x + 1) \<le> 2 powi e" by (simp add: power_int_increasing)
    with b(2) assms(2) show False by linarith
  next
    case False
    with ne have "e + 1 \<le> binade x" by simp
    then have "(2::rat) powi (e + 1) \<le> 2 powi binade x" by (simp add: power_int_increasing)
    with b(1) assms(3) show False by linarith
  qed
qed

lemma binade_mono:
  assumes "0 < x" "x \<le> y"
  shows "binade x \<le> binade y"
proof (rule ccontr)
  assume "\<not> binade x \<le> binade y"
  then have "binade y + 1 \<le> binade x" by simp
  then have "(2::rat) powi (binade y + 1) \<le> 2 powi binade x" by (simp add: power_int_increasing)
  moreover have "0 < y" using assms by simp
  ultimately show False
    using binade_bounds(1)[OF assms(1)] binade_bounds(2)[of y] assms(2) by linarith
qed

lemma round_half_even_cases: "round_half_even q = \<lfloor>q\<rfloor> \<or> round_half_even q = \<lfloor>q\<rfloor> + 1"
  by (simp add: round_half_even_def Let_def)

lemma round_half_even_error: "\<bar>of_int (round_half_even q) - q\<bar> \<le> 1 / 2"
proof -
  define d where "d = q - of_int \<lfloor>q\<rfloor>"
  have d: "0 \<le> d" "d < 1" using floor_correct[of q] by (simp_all add: d_def)
  have "round_half_even q = \<lfloor>q\<rfloor> \<and> d \<le> 1 / 2 \<or> round_half_even q = \<lfloor>q\<rfloor> + 1 \<and> 1 / 2 \<le> d"
    by (auto simp: round_half_even_def Let_def d_def)
  then show ?thesis
  proof
    assume a: "round_half_even q = \<lfloor>q\<rfloor> \<and> d \<le> 1 / 2"
    then have "of_int (round_half_even q) - q = - d" by (simp add: d_def)
    with a d show ?thesis by simp
  next
    assume a: "round_half_even q = \<lfloor>q\<rfloor> + 1 \<and> 1 / 2 \<le> d"
    then have "of_int (round_half_even q) - q = 1 - d" by (simp add: d_def)
    with a d show ?thesis by simp
  qed
qed

lemma round_half_even_of_int: "round_half_even (of_int m) = m"
  by (simp add: round_half_even_def)

lemma round_half_even_mono:
  assumes "q \<le> q'"
  shows "round_half_even q \<le> round_half_even q'"
proof (cases "\<lfloor>q\<rfloor> = \<lfloor>q'\<rfloor>")
  case True
  then have "q - of_int \<lfloor>q\<rfloor> \<le> q' - of_int \<lfloor>q'\<rfloor>" using assms by simp
  then show ?thesis using True
    by (auto simp: round_half_even_def Let_def)
next
  case False
  then have "\<lfloor>q\<rfloor> + 1 \<le> \<lfloor>q'\<rfloor>" using floor_mono[OF assms] by simp
  with round_half_even_cases[of q] round_half_even_cases[of q'] show ?thesis by linarith
qed

lemma round_half_even_ge: "of_int m \<le> q \<Longrightarrow> m \<le> round_half_even q"
  using round_half_even_mono[of "of_int m" q] by (simp add: round_half_even_of_int)

lemma round_half_even_le: "q \<le> of_int m \<Longrightarrow> round_half_even q \<le> m"
  using round_half_even_mono[of q "of_int m"] by (simp add: round_half_even_of_int)

lemma double_0 [simp]: "double 0 = 0"
  by (simp add: double_def)

lemma double_pos_eq:
  "0 < x \<Longrightarrow> double x = of_int (round_half_even (x / 2 powi (binade x - 52))) * 2 powi (binade x - 52)"
  by (simp add: double_def Let_def)

lemma ulp_pos: "0 < (2::rat) powi k"
  by (simp add: zero_less_power_int)

lemma significand_bounds:
  assumes "0 < x"
  shows "2 ^ 52 \<le> x / 2 powi (binade x - 52)" and "x / 2 powi (binade x - 52) < 2 ^ 53"
proof -
  have split: "(2::rat) powi binade x = 2 ^ 52 * 2 powi (binade x - 52)"
    "(2::rat) powi (binade x + 1) = 2 ^ 53 * 2 powi (binade x - 52)"
    by (simp_all add: power_int_diff power_int_add)
  from binade_bounds[OF assms]
  have "2 ^ 52 * 2 powi (binade x - 52) \<le> x" "x < 2 ^ 53 * 2 powi (binade x - 52)"
    unfolding split by simp_all
  then show "2 ^ 52 \<le> x / 2 powi (binade x - 52)" and "x / 2 powi (binade x - 52) < 2 ^ 53"
    using ulp_pos[of "binade x - 52"] by (simp_all add: pos_le_divide_eq pos_divide_less_eq)
qed

lemma double_error:
  assumes "0 \<le> x"
  shows "\<bar>double x - x\<bar> \<le> x / 2 ^ 53"
proof (cases "x = 0")
  case True
  then show ?thesis by simp
next
  case False
  with assms have pos: "0 < x" by simp
  define u :: rat where "u = 2 powi (binade x - 52)"
  have u: "0 < u" by (simp add: u_def ulp_pos)
  define q where "q = x / u"
  have x: "x = q * u" using u by (simp add: q_def)
  have dx: "double x = of_int (round_half_even q) * u"
    by (simp add: double_pos_eq[OF pos] u_def q_def)
  have "double x - x = (of_int (round_half_even q) - q) * u"
    unfolding dx using x by (simp add: algebra_simps)
  then have "\<bar>double x - x\<bar> = \<bar>of_int (round_half_even q) - q\<bar> * u"
    using u by (simp add: abs_mult)
  also have "\<dots> \<le> (1 / 2) * u"
    using round_half_even_error[of q] u by (simp add: mult_right_mono)
  also have "\<dots> \<le> x / 2 ^ 53"
  proof -
    have "2 ^ 52 \<le> q" using significand_bounds(1)[OF pos] by (simp add: q_def u_def)
    then have "2 ^ 52 * u \<le> x" using u by (simp add: x)
    then show ?thesis by (simp add: field_simps)
  qed
  finally show ?thesis .
qed

lemma double_nonneg: "0 \<le> x \<Longrightarrow> 0 \<le> double x"
proof (cases "x = 0")
  case True
  then show ?thesis by simp
next
  case False
  assume "0 \<le> x"
  with False have pos: "0 < x" by simp
  have "0 \<le> x / 2 powi (binade x - 52)" using pos ulp_pos[of "binade x - 52"] by simp
  then have "0 \<le> round_half_even (x / 2 powi (binade x - 52))"
    using round_half_even_ge[of 0] by simp
  then show ?thesis using ulp_pos[of "binade x - 52"] by (simp add: double_pos_eq[OF pos])
qed

lemma double_mono:
  assumes "0 \<le> x" "x \<le> y"
  shows "double x \<le> double y"
proof (cases "x = 0")
  case True
  then show ?thesis using assms double_nonneg[of y] by simp
next
  case False
  with assms have px: "0 < x" and py: "0 < y" by simp_all
  define u where "u = (2::rat) powi (binade x - 52)"
  define v where "v = (2::rat) powi (binade y - 52)"
  have u: "0 < u" and v: "0 < v" by (simp_all add: u_def v_def ulp_pos)
  have dx: "double x = of_int (round_half_even (x / u)) * u" by (simp add: double_pos_eq[OF px] u_def)
  have dy: "double y = of_int (round_half_even (y / v)) * v" by (simp add: double_pos_eq[OF py] v_def)
  show ?thesis
  proof (cases "binade x = binade y")
    case True
    then have uv: "u = v" by (simp add: u_def v_def)
    have "x / v \<le> y / v" using assms(2) v by (simp add: divide_right_mono)
    then have "round_half_even (x / v) \<le> round_half_even (y / v)" by (rule round_half_even_mono)
    then have "(of_int (round_half_even (x / v)) :: rat) \<le> of_int (round_half_even (y / v))"
      by (simp only: of_int_le_iff)
    then show ?thesis unfolding dx dy uv using v by (simp add: mult_right_mono)
  next
    case False
    with binade_mono[OF px assms(2)] have lt: "binade x + 1 \<le> binade y" by simp
    have "x / u \<le> of_int (2 ^ 53)" using significand_bounds(2)[OF px] by (simp add: u_def)
    then have "round_half_even (x / u) \<le> 2 ^ 53" by (rule round_half_even_le)
    then have "(of_int (round_half_even (x / u)) :: rat) \<le> of_int (2 ^ 53)"
      by (simp only: of_int_le_iff)
    then have "double x \<le> 2 ^ 53 * u" unfolding dx using u by (simp add: mult_right_mono)
    also have "\<dots> = 2 powi (binade x + 1)" by (simp add: u_def power_int_diff power_int_add)
    also have "\<dots> \<le> 2 powi binade y" using lt by (simp add: power_int_increasing)
    also have "\<dots> = 2 ^ 52 * v" by (simp add: v_def power_int_diff)
    also have "\<dots> \<le> double y"
    proof -
      have "of_int (2 ^ 52) \<le> y / v" using significand_bounds(1)[OF py] by (simp add: v_def)
      then have "2 ^ 52 \<le> round_half_even (y / v)" by (rule round_half_even_ge)
      then have "(of_int (2 ^ 52) :: rat) \<le> of_int (round_half_even (y / v))"
        by (simp only: of_int_le_iff)
      then show ?thesis unfolding dy using v by (simp add: mult_right_mono)
    qed
    finally show ?thesis .
  qed
qed

lemma double_1: "double 1 = 1"
  by code_simp

lemma double_100: "double 100 = 100"
  by code_simp

section \<open>Arithmetic of the progress value\<close>

lemma floor_half: "\<lfloor>1 / 2 :: rat\<rfloor> = 0"
  by (rule floor_unique) simp_all

lemma progress_of_0: "progress_of 0 n = 0"
  by (simp add: progress_of_def Math_round_def floor_half)

lemma progress_of_mono:
  assumes "c \<le> c'"
  shows "progress_of c n \<le> progress_of c' n"
proof -
  have q: "(0::rat) \<le> of_nat c / of_nat n" "(of_nat c :: rat) / of_nat n \<le> of_nat c' / of_nat n"
    using assms by (simp_all add: divide_right_mono)
  have "double (of_nat c / of_nat n) \<le> double (of_nat c' / of_nat n)"
    using q by (rule double_mono)
  moreover have "0 \<le> double (of_nat c / of_nat n)" using q(1) by (rule double_nonneg)
  ultimately have "0 \<le> double (of_nat c / of_nat n) * 100"
    "double (of_nat c / of_nat n) * 100 \<le> double (of_nat c' / of_nat n) * 100"
    by simp_all
  then have "double (double (of_nat c / of_nat n) * 100)
             \<le> double (double (of_nat c' / of_nat n) * 100)"
    by (rule double_mono)
  then show ?thesis
    unfolding progress_of_def Math_round_def by (intro floor_mono) simp
qed

lemma progress_of_all:
  assumes "0 < n"
  shows "progress_of n n = 100"
proof -
  have "(of_nat n :: rat) / of_nat n = 1" using assms by simp
  moreover have "\<lfloor>100 + 1 / 2 :: rat\<rfloor> = 100" by (rule floor_unique) simp_all
  ultimately show ?thesis
    unfolding progress_of_def Math_round_def by (simp only: double_1 double_100 mult_1)
qed

lemma progress_of_range:
  assumes "0 < n" "c \<le> n"
  shows "0 \<le> progress_of c n \<and> progress_of c n \<le> 100"
  using progress_of_mono[of 0 c n] progress_of_mono[OF assms(2), of n]
    progress_of_all[OF assms(1)] by (simp add: progress_of_0)

lemma product_error:
  assumes "0 < n" "c \<le> n"
  shows "\<bar>double (double (of_nat c / of_nat n) * 100) - 100 * of_nat c / of_nat n\<bar> \<le> 1 / 2 ^ 44"
proof -
  define x0 :: rat where "x0 = of_nat c / of_nat n"
  define d0 where "d0 = double x0"
  define p where "p = double (d0 * 100)"
  have x0: "0 \<le> x0" "x0 \<le> 1" using assms by (simp_all add: x0_def)
  have e0: "\<bar>d0 - x0\<bar> \<le> x0 / 2 ^ 53" unfolding d0_def using x0(1) by (rule double_error)
  have d0: "0 \<le> d0" unfolding d0_def using x0(1) by (rule double_nonneg)
  then have y: "0 \<le> d0 * 100" by simp
  have e1: "\<bar>p - d0 * 100\<bar> \<le> d0 * 100 / 2 ^ 53" unfolding p_def using y by (rule double_error)
  from e0 have d0le: "d0 \<le> x0 + x0 / 2 ^ 53" by linarith
  have "p - 100 * x0 = (p - d0 * 100) + 100 * (d0 - x0)" by simp
  then have "\<bar>p - 100 * x0\<bar> \<le> \<bar>p - d0 * 100\<bar> + \<bar>100 * (d0 - x0)\<bar>"
    by (simp only: abs_triangle_ineq)
  also have "\<bar>100 * (d0 - x0)\<bar> = 100 * \<bar>d0 - x0\<bar>" by (simp only: abs_mult abs_numeral)
  finally have "\<bar>p - 100 * x0\<bar> \<le> \<bar>p - d0 * 100\<bar> + 100 * \<bar>d0 - x0\<bar>" .
  also have "\<dots> \<le> d0 * 100 / 2 ^ 53 + 100 * (x0 / 2 ^ 53)" using e0 e1 by simp
  also have "\<dots> \<le> (x0 + x0 / 2 ^ 53) * 100 / 2 ^ 53 + 100 * (x0 / 2 ^ 53)"
    using d0le by (simp add: divide_right_mono)
  also have "\<dots> = x0 * (100 / 2 ^ 53 + 100 / 2 ^ 106 + 100 / 2 ^ 53)" by (simp add: algebra_simps)
  also have "\<dots> \<le> 1 * (100 / 2 ^ 53 + 100 / 2 ^ 106 + 100 / 2 ^ 53)"
    using x0(2) by (intro mult_right_mono) simp_all
  also have "\<dots> \<le> 1 / 2 ^ 44" by simp
  finally show ?thesis by (simp add: p_def d0_def x0_def)
qed

lemma progress_of_exact:
  assumes "0 < n" "n < 2 ^ 32" "c \<le> n"
  shows "progress_of c n = Math_round (100 * of_nat c / of_nat n)
       \<or> (frac (100 * of_nat c / of_nat n :: rat) = 1 / 2
          \<and> progress_of c n = Math_round (100 * of_nat c / of_nat n) - 1)"
proof -
  define x :: rat where "x = 100 * of_nat c / of_nat n"
  define p where "p = double (double (of_nat c / of_nat n) * 100)"
  define r where "r = \<lfloor>x + 1 / 2\<rfloor>"
  define D :: rat where "D = of_nat (2 * n)"
  have D: "0 < D" "D < 2 ^ 44"
  proof -
    show "0 < D" using assms(1) by (simp add: D_def)
    have "2 * n < 2 ^ 44" using assms(2) by simp
    then have "(of_nat (2 * n) :: rat) < of_nat (2 ^ 44)" by (simp only: of_nat_less_iff)
    then show "D < 2 ^ 44" by (simp add: D_def)
  qed
  have eps: "1 / 2 ^ 44 < 1 / D" using D by (simp add: frac_less2)
  have err: "\<bar>p - x\<bar> \<le> 1 / 2 ^ 44"
    unfolding p_def x_def using assms(1,3) by (rule product_error)
  have T: "(x + 1 / 2) * D = of_int (int (200 * c + n))"
    using assms(1) by (simp add: x_def D_def field_simps)
  have Dint: "D = of_int (int (2 * n))" by (simp add: D_def)
  have P: "progress_of c n = \<lfloor>p + 1 / 2\<rfloor>" by (simp add: progress_of_def Math_round_def p_def)
  have R: "Math_round x = r" by (simp add: Math_round_def r_def)
  have fl: "of_int r \<le> x + 1 / 2" "x + 1 / 2 < of_int (r + 1)"
    using floor_correct[of "x + 1 / 2"] by (simp_all add: r_def)
  \<comment> \<open>the exact value stays at least \<open>1 / D\<close> below the next integer\<close>
  have "(x + 1 / 2) * D < of_int (r + 1) * D" using fl(2) D(1) by (simp add: mult_strict_right_mono)
  then have "(of_int (int (200 * c + n)) :: rat) < of_int (r + 1) * D" unfolding T .
  also have "of_int (r + 1) * D = of_int ((r + 1) * int (2 * n))" unfolding Dint by simp
  finally have "int (200 * c + n) < (r + 1) * int (2 * n)" by (simp only: of_int_less_iff)
  then have "int (200 * c + n) + 1 \<le> (r + 1) * int (2 * n)" by simp
  then have "(of_int (int (200 * c + n) + 1) :: rat) \<le> of_int ((r + 1) * int (2 * n))"
    by (simp only: of_int_le_iff)
  also have "(of_int ((r + 1) * int (2 * n)) :: rat) = of_int (r + 1) * D" unfolding Dint by simp
  also have "(of_int (int (200 * c + n) + 1) :: rat) = (x + 1 / 2) * D + 1" unfolding T by simp
  finally have "(x + 1 / 2) * D + 1 \<le> of_int (r + 1) * D" .
  then have "((x + 1 / 2) * D + 1) / D \<le> of_int (r + 1)"
    by (simp only: pos_divide_le_eq[OF D(1)])
  moreover have "((x + 1 / 2) * D + 1) / D = x + 1 / 2 + 1 / D"
    using D(1) by (simp add: add_divide_distrib)
  ultimately have up: "x + 1 / 2 + 1 / D \<le> of_int (r + 1)" by (simp only:)
  have "p + 1 / 2 < of_int (r + 1)" using up eps err by linarith
  then have "\<lfloor>p + 1 / 2\<rfloor> < r + 1" by (simp only: floor_less_iff)
  then have le: "progress_of c n \<le> r" unfolding P by simp
  have pl: "x - 1 / 2 ^ 44 \<le> p" using err by linarith
  have small: "(1::rat) / 2 ^ 44 \<le> 1" by simp
  have "(of_int (r - 1) :: rat) = of_int r - 1" by simp
  then have "of_int (r - 1) \<le> p + 1 / 2" using fl(1) pl small by linarith
  then have ge: "r - 1 \<le> progress_of c n" unfolding P by (simp only: le_floor_iff)
  show ?thesis
  proof (cases "x + 1 / 2 = of_int r")
    case True
    then have x: "x = of_int (r - 1) + 1 / 2" by simp
    have "\<lfloor>x\<rfloor> = r - 1" unfolding x by (rule floor_unique) simp_all
    then have "frac x = 1 / 2" using x by (simp add: frac_def)
    with le ge R show ?thesis unfolding x_def by linarith
  next
    case False
    with fl(1) have "of_int r < x + 1 / 2" by simp
    then have "of_int r * D < (x + 1 / 2) * D" using D(1) by (simp add: mult_strict_right_mono)
    then have "of_int r * D < (of_int (int (200 * c + n)) :: rat)" unfolding T .
    moreover have "of_int r * D = of_int (r * int (2 * n))" unfolding Dint by simp
    ultimately have "(of_int (r * int (2 * n)) :: rat) < of_int (int (200 * c + n))" by simp
    then have "r * int (2 * n) < int (200 * c + n)" by (simp only: of_int_less_iff)
    then have "r * int (2 * n) + 1 \<le> int (200 * c + n)" by simp
    then have i: "(of_int (r * int (2 * n) + 1) :: rat) \<le> of_int (int (200 * c + n))"
      by (simp only: of_int_le_iff)
    have "of_int r * D + 1 = (of_int (r * int (2 * n) + 1) :: rat)" unfolding Dint by simp
    also note i
    also have "(of_int (int (200 * c + n)) :: rat) = (x + 1 / 2) * D" by (simp only: T)
    finally have "of_int r * D + 1 \<le> (x + 1 / 2) * D" .
    then have "(of_int r * D + 1) / D \<le> x + 1 / 2"
      by (simp only: pos_divide_le_eq[OF D(1)])
    moreover have "(of_int r * D + 1) / D = of_int r + 1 / D"
      using D(1) by (simp add: add_divide_distrib)
    ultimately have "of_int r + 1 / D \<le> x + 1 / 2" by (simp only:)
    then have "of_int r \<le> p + 1 / 2" using eps err by linarith
    then have "r \<le> progress_of c n" unfolding P by (simp only: le_floor_iff)
    with le R show ?thesis unfolding x_def by simp
  qed
qed

lemma exact_round_below_100:
  assumes "c < n" "n < 200"
  shows "Math_round (100 * of_nat c / of_nat n) < 100"
proof -
  have n: "(0::rat) < 2 * of_nat n" using assms by simp
  have "200 * c + n < 200 * n" using assms by linarith
  then have "(of_nat (200 * c + n) :: rat) < of_nat (200 * n)" by (simp only: of_nat_less_iff)
  then have "200 * of_nat c + of_nat n < (200 * of_nat n :: rat)" by simp
  then have "(200 * of_nat c + of_nat n) / (2 * of_nat n) < (200 * of_nat n :: rat) / (2 * of_nat n)"
    using n by (rule divide_strict_right_mono)
  moreover have "100 * of_nat c / of_nat n + 1 / 2 = (200 * of_nat c + of_nat n :: rat) / (2 * of_nat n)"
    using n by (simp add: field_simps)
  moreover have "(200 * of_nat n :: rat) / (2 * of_nat n) = of_int 100" using n by simp
  ultimately have "100 * of_nat c / of_nat n + 1 / 2 < (of_int 100 :: rat)" by (simp only:)
  then show ?thesis unfolding Math_round_def by (simp only: floor_less_iff)
qed

lemma progress_of_100_only_at_end:
  assumes "0 < n" "n < 200" "c \<le> n" "progress_of c n = 100"
  shows "c = n"
proof (rule ccontr)
  assume "c \<noteq> n"
  with assms(3) have lt: "c < n" by simp
  have "n < 2 ^ 32" using assms(2) by simp
  from progress_of_exact[OF assms(1) this assms(3)]
  have "progress_of c n \<le> Math_round (100 * of_nat c / of_nat n)" by linarith
  with exact_round_below_100[OF lt assms(2)] assms(4) show False by simp
qed

section \<open>Settlement of the batches of one invocation\<close>

lemma those_map_Some: "those (map Some xs) = Some xs"
  by (induction xs) simp_all

lemma those_map_Some_comp: "those (map (Some \<circ> f) xs) = Some (map f xs)"
  by (induction xs) simp_all

lemma dispatch_state: "dispatch batches = settled_state mutationFn batches {}"
  by (simp add: dispatch_def settled_state_def progress_of_0 map_replicate_const)

lemma settle_state:
  assumes "finite S" "S \<subseteq> {..<length batches}"
  shows "settle mutationFn batches index (settled_state mutationFn batches S)
         = settled_state mutationFn batches (S \<union> ({index} \<inter> {..<length batches}))"
proof (cases "index < length batches \<and> index \<notin> S")
  case True
  then have new: "S \<union> ({index} \<inter> {..<length batches}) = insert index S" by auto
  have card: "card (insert index S) = Suc (card S)" using True assms by simp
  have upd: "(map (\<lambda>i. if i \<in> S then Some (handled mutationFn batches i) else None)
                [0..<length batches])[index := Some (handled mutationFn batches index)]
             = map (\<lambda>i. if i \<in> insert index S then Some (handled mutationFn batches i) else None)
                [0..<length batches]"
    by (rule nth_equalityI) (use True in \<open>auto simp: nth_list_update\<close>)
  show ?thesis
    using True unfolding new
    by (simp add: settle_def settled_state_def card upd Let_def)
next
  case False
  then have same: "S \<union> ({index} \<inter> {..<length batches}) = S" by auto
  from False show ?thesis unfolding same
    by (auto simp: settle_def settled_state_def)
qed

lemma fold_settle:
  "fold (settle mutationFn batches) order (dispatch batches)
   = settled_state mutationFn batches (set order \<inter> {..<length batches})"
proof (induction order rule: rev_induct)
  case Nil
  show ?case by (simp add: dispatch_state[of batches mutationFn])
next
  case (snoc index order)
  have "(set order \<inter> {..<length batches}) \<union> ({index} \<inter> {..<length batches})
        = set (order @ [index]) \<inter> {..<length batches}" by auto
  then show ?case
    using snoc settle_state[of "set order \<inter> {..<length batches}" batches mutationFn index]
    by simp
qed

lemma settled_all:
  "settled (settled_state mutationFn batches {..<length batches})
   = map Some (map (handled mutationFn batches) [0..<length batches])"
  by (simp add: settled_state_def)

lemma handled_Inr: "mutationFn i (batches ! i) = Inr d \<Longrightarrow> handled mutationFn batches i = Success d i"
  by (simp add: handled_def)

lemma handled_Inl: "mutationFn i (batches ! i) = Inl e \<Longrightarrow> handled mutationFn batches i = Failure e i"
  by (simp add: handled_def)

lemma fold_collect:
  "fold collect (map (handled mutationFn batches) is) (a, b)
   = (a @ fulfilled (map (\<lambda>i. mutationFn i (batches ! i)) is),
      b @ rejected (map (\<lambda>i. mutationFn i (batches ! i)) is))"
proof (induction "is" arbitrary: a b)
  case Nil
  show ?case by simp
next
  case (Cons i "is")
  show ?case
    by (cases "mutationFn i (batches ! i)") (simp_all add: handled_Inl handled_Inr Cons)
qed

lemma filter_success:
  "length (filter success (map (handled mutationFn batches) is))
   = length (fulfilled (map (\<lambda>i. mutationFn i (batches ! i)) is))"
proof (induction "is")
  case Nil
  show ?case by simp
next
  case (Cons i "is")
  then show ?case
    by (cases "mutationFn i (batches ! i)") (simp_all add: handled_Inl handled_Inr)
qed

lemma length_fulfilled_rejected: "length (fulfilled rs) + length (rejected rs) = length rs"
  by (induction rs rule: fulfilled.induct) simp_all

lemma aggregate_results:
  "aggregate batches (map (handled mutationFn batches) [0..<length batches])
   = (if fulfilled (batch_results mutationFn batches) = []
         \<and> rejected (batch_results mutationFn batches) \<noteq> []
      then Inl (hd (rejected (batch_results mutationFn batches)))
      else Inr \<lparr>data = fulfilled (batch_results mutationFn batches),
                totalBatches = length batches,
                completedBatches = length (fulfilled (batch_results mutationFn batches)),
                errors = rejected (batch_results mutationFn batches)\<rparr>)"
proof -
  let ?rs = "map (\<lambda>i. mutationFn i (batches ! i)) [0..<length batches]"
  have fc: "fold collect (map (handled mutationFn batches) [0..<length batches]) ([], [])
            = (fulfilled ?rs, rejected ?rs)"
    using fold_collect[of mutationFn batches "[0..<length batches]" "[]" "[]"] by simp
  note fs = filter_success[of mutationFn batches "[0..<length batches]"]
  show ?thesis
    unfolding aggregate_def fc fs batch_results_def by (simp split: list.split)
qed

lemma run_empty:
  assumes "chunkArray items batchSize = Some []"
  shows "mutateBatchAsync mutationFn batchSize order items
         = Some \<lparr>outcome = Inr \<lparr>data = [], totalBatches = 0, completedBatches = 0, errors = []\<rparr>,
                 progress_calls = [0], dispatched = []\<rparr>"
  using assms by (simp add: mutateBatchAsync_def)

lemma run_all_settled:
  assumes "chunkArray items batchSize = Some batches" "batches \<noteq> []"
    and "{..<length batches} \<subseteq> set order"
  shows "mutateBatchAsync mutationFn batchSize order items
         = Some \<lparr>outcome = aggregate batches (map (handled mutationFn batches) [0..<length batches]),
                 progress_calls = map (\<lambda>c. progress_of c (length batches)) [0..<Suc (length batches)],
                 dispatched = batches\<rparr>"
proof -
  have S: "set order \<inter> {..<length batches} = {..<length batches}" using assms(3) by auto
  have log: "progress_log (settled_state mutationFn batches {..<length batches})
             = map (\<lambda>c. progress_of c (length batches)) [0..<Suc (length batches)]"
    by (simp add: settled_state_def)
  show ?thesis
    using assms(1,2)
    by (simp add: mutateBatchAsync_def fold_settle S settled_all those_map_Some_comp log Let_def
             del: upt_Suc)
qed

section \<open>How a run settles\<close>

lemma chunkArray_loop_diverges:
  assumes "sz \<le> 0" "i < int (length array)"
  shows "chunkArray_loop array sz i chunks = None"
proof (rule ccontr)
  assume "chunkArray_loop array sz i chunks \<noteq> None"
  then obtain y where y: "chunkArray_loop array sz i chunks = Some y" by auto
  have "\<not> (sz \<le> 0 \<and> i < int (length array))"
  proof (rule chunkArray_loop.raw_induct
      [where P = "\<lambda>array sz i chunks y. \<not> (sz \<le> 0 \<and> i < int (length array))", OF _ y])
    fix f :: "'a list \<Rightarrow> int \<Rightarrow> int \<Rightarrow> 'a list list \<Rightarrow> 'a list list option"
      and array sz i chunks y
    assume ih: "\<And>array sz i chunks y.
                  f array sz i chunks = Some y \<Longrightarrow> \<not> (sz \<le> 0 \<and> i < int (length array))"
      and body: "(if i < int (length array)
                  then f array sz (i + sz) (chunks @ [slice array i (i + sz)])
                  else Some chunks) = Some y"
    show "\<not> (sz \<le> 0 \<and> i < int (length array))"
    proof
      assume bad: "sz \<le> 0 \<and> i < int (length array)"
      with body have "f array sz (i + sz) (chunks @ [slice array i (i + sz)]) = Some y" by simp
      from ih[OF this] bad show False by simp
    qed
  qed
  with assms show False by simp
qed

lemma chunkArray_diverges: "sz \<le> 0 \<Longrightarrow> array \<noteq> [] \<Longrightarrow> chunkArray array sz = None"
  by (simp add: chunkArray_def chunkArray_loop_diverges)

lemma those_map_if:
  "those (map (\<lambda>i. if i \<in> S then Some (f i) else None) is)
   = (if set is \<subseteq> S then Some (map f is) else None)"
  by (induction "is") auto

lemma run_nonempty:
  assumes "chunkArray items batchSize = Some batches" "batches \<noteq> []"
  shows "mutateBatchAsync mutationFn batchSize order items
         = (if {..<length batches} \<subseteq> set order
            then Some \<lparr>outcome = aggregate batches (map (handled mutationFn batches) [0..<length batches]),
                       progress_calls = map (\<lambda>c. progress_of c (length batches)) [0..<Suc (length batches)],
                       dispatched = batches\<rparr>
            else None)"
proof (cases "{..<length batches} \<subseteq> set order")
  case True
  with assms show ?thesis by (simp add: run_all_settled)
next
  case False
  then have "\<not> set [0..<length batches] \<subseteq> set order \<inter> {..<length batches}" by auto
  then have "those (settled (settled_state mutationFn batches (set order \<inter> {..<length batches}))) = None"
    unfolding settled_state_def by (simp only: invocation.simps those_map_if if_False)
  with assms False show ?thesis
    by (simp add: mutateBatchAsync_def fold_settle Let_def)
qed

lemma batch_results_Nil [simp]: "batch_results mutationFn [] = []"
  by (simp add: batch_results_def)

lemma resolved_run:
  assumes "chunkArray items batchSize = Some batches"
  shows "resolved (mutateBatchAsync mutationFn batchSize order items)
         = (if {..<length batches} \<subseteq> set order
               \<and> \<not> (fulfilled (batch_results mutationFn batches) = []
                      \<and> rejected (batch_results mutationFn batches) \<noteq> [])
            then Some \<lparr>data = fulfilled (batch_results mutationFn batches),
                       totalBatches = length batches,
                       completedBatches = length (fulfilled (batch_results mutationFn batches)),
                       errors = rejected (batch_results mutationFn batches)\<rparr>
            else None)"
proof (cases "batches = []")
  case True
  with assms show ?thesis by (simp add: run_empty resolved_def)
next
  case False
  show ?thesis
    unfolding run_nonempty[OF assms False] aggregate_results
    by (simp add: resolved_def)
qed

lemma rejection_run:
  assumes "chunkArray items batchSize = Some batches"
  shows "rejection (mutateBatchAsync mutationFn batchSize order items)
         = (if {..<length batches} \<subseteq> set order
               \<and> fulfilled (batch_results mutationFn batches) = []
               \<and> rejected (batch_results mutationFn batches) \<noteq> []
            then Some (hd (rejected (batch_results mutationFn batches)))
            else None)"
proof (cases "batches = []")
  case True
  with assms show ?thesis by (simp add: run_empty rejection_def)
next
  case False
  show ?thesis
    unfolding run_nonempty[OF assms False] aggregate_results
    by (simp add: rejection_def)
qed

lemma resolved_imp_chunked:
  assumes "resolved (mutateBatchAsync mutationFn batchSize order items) = Some r"
  shows "\<exists>batches. chunkArray items batchSize = Some batches"
  using assms by (cases "chunkArray items batchSize") (simp_all add: mutateBatchAsync_def resolved_def)

lemma fulfilled_map:
  "fulfilled (map f is) = map (\<lambda>i. projr (f i)) (filter (\<lambda>i. \<not> isl (f i)) is)"
proof (induction "is")
  case Nil
  show ?case by simp
next
  case (Cons i "is")
  then show ?case by (cases "f i") simp_all
qed

lemma rejected_map:
  "rejected (map f is) = map (\<lambda>i. projl (f i)) (filter (\<lambda>i. isl (f i)) is)"
proof (induction "is")
  case Nil
  show ?case by simp
next
  case (Cons i "is")
  then show ?case by (cases "f i") simp_all
qed

lemma fulfilled_Nil_iff: "fulfilled rs = [] \<longleftrightarrow> (\<forall>r \<in> set rs. isl r)"
  by (induction rs rule: fulfilled.induct) simp_all

lemma rejected_Nil_iff: "rejected rs = [] \<longleftrightarrow> (\<forall>r \<in> set rs. \<not> isl r)"
  by (induction rs rule: rejected.induct) simp_all

lemma hd_rejected: "rs \<noteq> [] \<Longrightarrow> isl (hd rs) \<Longrightarrow> hd (rejected rs) = projl (hd rs)"
  by (cases rs rule: rejected.cases) simp_all

lemma set_batch_results:
  "(\<forall>r \<in> set (batch_results mutationFn batches). P r)
   \<longleftrightarrow> (\<forall>i < length batches. P (mutationFn i (batches ! i)))"
  by (auto simp: batch_results_def)

section \<open>Partial failure\<close>

lemma length_batch_results: "length (batch_results mutationFn batches) = length batches"
  by (simp add: batch_results_def)

lemma nth_batch_results:
  "i < length batches \<Longrightarrow> batch_results mutationFn batches ! i = mutationFn i (batches ! i)"
  by (simp add: batch_results_def)

lemma length_fulfilled_3:
  assumes "length rs = 3" "\<not> isl (rs ! 0)" "isl (rs ! 1)" "\<not> isl (rs ! 2)"
  shows "length (fulfilled rs) = 2 \<and> length (rejected rs) = 1"
proof -
  from assms(1) obtain a b c where rs: "rs = [a, b, c]"
    by (auto simp: numeral_3_eq_3 length_Suc_conv)
  with assms(2-4) show ?thesis
    by (cases a; cases b; cases c) simp_all
qed

text \<open>
  Claim C2, as the code has it. Once every batch has settled, a result \<open>r\<close> that
  \<^verbatim>\<open>mutateBatchAsync\<close> resolves with satisfies
  \<open>len(data) + len(errors) = totalBatches\<close> and \<open>completedBatches = len(data) \<le> totalBatches\<close>:
  \<^verbatim>\<open>completedBatches\<close> counts the fulfilled batches only. With 3 batches of which exactly
  the batch at index 1 fails, the run resolves with \<open>data.length = 2\<close>,
  \<open>errors.length = 1\<close>, \<open>completedBatches = 2\<close> and \<open>totalBatches = 3\<close>.
\<close>

theorem partial_failure_result:
  assumes "chunkArray items batchSize = Some batches"
    and "{..<length batches} \<subseteq> set order"
  shows "(\<forall>r. resolved (mutateBatchAsync mutationFn batchSize order items) = Some r \<longrightarrow>
             length (data r) + length (errors r) = totalBatches r
           \<and> completedBatches r = length (data r)
           \<and> completedBatches r \<le> totalBatches r)
       \<and> (length batches = 3
           \<and> \<not> isl (mutationFn 0 (batches ! 0))
           \<and> isl (mutationFn 1 (batches ! 1))
           \<and> \<not> isl (mutationFn 2 (batches ! 2)) \<longrightarrow>
           (\<exists>r. resolved (mutateBatchAsync mutationFn batchSize order items) = Some r
              \<and> length (data r) = 2 \<and> length (errors r) = 1
              \<and> completedBatches r = 2 \<and> totalBatches r = 3))"
proof (intro conjI allI impI)
  fix r
  assume "resolved (mutateBatchAsync mutationFn batchSize order items) = Some r"
  then have r: "r = \<lparr>data = fulfilled (batch_results mutationFn batches),
                     totalBatches = length batches,
                     completedBatches = length (fulfilled (batch_results mutationFn batches)),
                     errors = rejected (batch_results mutationFn batches)\<rparr>"
    unfolding resolved_run[OF assms(1)] by (simp split: if_splits)
  have len: "length (fulfilled (batch_results mutationFn batches))
             + length (rejected (batch_results mutationFn batches)) = length batches"
    using length_fulfilled_rejected[of "batch_results mutationFn batches"]
    by (simp add: batch_results_def)
  show "length (data r) + length (errors r) = totalBatches r" using r len by simp
  show "completedBatches r = length (data r)" using r by simp
  show "completedBatches r \<le> totalBatches r" using r len by simp
next
  assume sc: "length batches = 3
           \<and> \<not> isl (mutationFn 0 (batches ! 0))
           \<and> isl (mutationFn 1 (batches ! 1))
           \<and> \<not> isl (mutationFn 2 (batches ! 2))"
  then have "length (batch_results mutationFn batches) = 3"
    "\<not> isl (batch_results mutationFn batches ! 0)"
    "isl (batch_results mutationFn batches ! 1)"
    "\<not> isl (batch_results mutationFn batches ! 2)"
    by (simp_all only: length_batch_results nth_batch_results) simp_all
  from length_fulfilled_3[OF this]
  have l: "length (fulfilled (batch_results mutationFn batches)) = 2"
    "length (rejected (batch_results mutationFn batches)) = 1" by simp_all
  then have "fulfilled (batch_results mutationFn batches) \<noteq> []" by auto
  then show "\<exists>r. resolved (mutateBatchAsync mutationFn batchSize order items) = Some r
              \<and> length (data r) = 2 \<and> length (errors r) = 1
              \<and> completedBatches r = 2 \<and> totalBatches r = 3"
    unfolding resolved_run[OF assms(1)] using assms(2) l sc by simp
qed

lemmas run_eval = resolved_def rejection_def mutateBatchAsync_def chunkArray_def
  chunkArray_loop.simps slice_def dispatch_def settle_def handled_def failing_at_def
  aggregate_def Let_def

theorem partial_failure_result_witness:
  "chunkArray [10, 20, 30 :: nat] 1 = Some [[10], [20], [30]]
   \<and> {..<length [[10], [20], [30 :: nat]]} \<subseteq> set [2, 0, 1]
   \<and> (\<exists>r. resolved (mutateBatchAsync (failing_at [1]) 1 [2, 0, 1] [10, 20, 30]) = Some r
          \<and> length (data r) = 2 \<and> length (errors r) = 1
          \<and> completedBatches r = 2 \<and> totalBatches r = 3)"
proof -
  have c: "chunkArray [10, 20, 30 :: nat] 1 = Some [[10], [20], [30]]"
    by (simp add: chunkArray_def chunkArray_loop.simps slice_def)
  have s: "{..<length [[10], [20], [30 :: nat]]} \<subseteq> set [2, 0, 1]"
    by (simp add: lessThan_Suc numeral_3_eq_3)
  have sc: "length [[10], [20], [30 :: nat]] = 3
            \<and> \<not> isl (failing_at [1] 0 ([[10], [20], [30]] ! 0))
            \<and> isl (failing_at [1] 1 ([[10], [20], [30]] ! 1))
            \<and> \<not> isl (failing_at [1] 2 ([[10], [20], [30]] ! 2))"
    by (simp add: failing_at_def)
  from partial_failure_result[OF c s, of "failing_at [1]"] sc
  have "\<exists>r. resolved (mutateBatchAsync (failing_at [1]) 1 [2, 0, 1] [10, 20, 30]) = Some r
          \<and> length (data r) = 2 \<and> length (errors r) = 1
          \<and> completedBatches r = 2 \<and> totalBatches r = 3"
    by blast
  with c s show ?thesis by blast
qed

text \<open>
  Claim C2 as stated asks for \<open>completedBatches = 3\<close> in the scenario of 3 batches with one
  failure. Three items in batches of one, the second batch failing: the run resolves with
  \<open>completedBatches = 2\<close>.
\<close>

theorem partial_failure_completedBatches_counterexample:
  "resolved (mutateBatchAsync (failing_at [1]) 1 [0, 1, 2] [10, 20, 30])
     = Some \<lparr>data = [[10], [30]], totalBatches = 3, completedBatches = 2,
              errors = [(''failed batch'', 1)]\<rparr>
   \<and> map_option completedBatches
        (resolved (mutateBatchAsync (failing_at [1]) 1 [0, 1, 2] [10, 20, 30])) \<noteq> Some 3"
  by (simp add: run_eval)

section \<open>Total failure, empty input, settlement order\<close>

text \<open>
  Claim C3. In an invocation with at least one batch in which every batch settles: when the
  operation fails for every batch, the invocation rejects with the error of batch 0, the
  failed batch of lowest index, and no aggregated result is returned; when the operation
  succeeds for at least one batch, the invocation does not reject and resolves with the
  results of the fulfilled batches and the errors of the rejected ones, a sequence that is
  not empty exactly when some batch failed.
\<close>

theorem total_failure_rejects:
  assumes "chunkArray items batchSize = Some batches"
    and "batches \<noteq> []"
    and "{..<length batches} \<subseteq> set order"
  shows "((\<forall>i<length batches. isl (mutationFn i (batches ! i))) \<longrightarrow>
            rejection (mutateBatchAsync mutationFn batchSize order items)
              = Some (projl (mutationFn 0 (batches ! 0)))
          \<and> resolved (mutateBatchAsync mutationFn batchSize order items) = None)
       \<and> ((\<exists>i<length batches. \<not> isl (mutationFn i (batches ! i))) \<longrightarrow>
            rejection (mutateBatchAsync mutationFn batchSize order items) = None
          \<and> resolved (mutateBatchAsync mutationFn batchSize order items)
              = Some \<lparr>data = fulfilled (batch_results mutationFn batches),
                       totalBatches = length batches,
                       completedBatches = length (fulfilled (batch_results mutationFn batches)),
                       errors = rejected (batch_results mutationFn batches)\<rparr>
          \<and> (rejected (batch_results mutationFn batches) \<noteq> []
               \<longleftrightarrow> (\<exists>i<length batches. isl (mutationFn i (batches ! i)))))"
proof (intro conjI impI)
  let ?rs = "batch_results mutationFn batches"
  have ne: "?rs \<noteq> []" using assms(2) by (simp add: batch_results_def)
  {
    assume all: "\<forall>i<length batches. isl (mutationFn i (batches ! i))"
    then have f: "fulfilled ?rs = []" by (simp add: fulfilled_Nil_iff set_batch_results)
    have "\<not> (\<forall>r \<in> set ?rs. \<not> isl r)"
      using all assms(2) unfolding set_batch_results by auto
    then have r: "rejected ?rs \<noteq> []" by (simp add: rejected_Nil_iff)
    have "hd ?rs = mutationFn 0 (batches ! 0)"
      using assms(2) ne nth_batch_results[of 0 batches mutationFn] by (simp add: hd_conv_nth)
    moreover have "isl (mutationFn 0 (batches ! 0))" using all assms(2) by simp
    ultimately have h: "hd (rejected ?rs) = projl (mutationFn 0 (batches ! 0))"
      using hd_rejected[OF ne] by simp
    show "rejection (mutateBatchAsync mutationFn batchSize order items)
              = Some (projl (mutationFn 0 (batches ! 0)))"
      unfolding rejection_run[OF assms(1)] using f r h assms(3) by simp
    show "resolved (mutateBatchAsync mutationFn batchSize order items) = None"
      unfolding resolved_run[OF assms(1)] using f r by simp
  }
  {
    assume some: "\<exists>i<length batches. \<not> isl (mutationFn i (batches ! i))"
    then have f: "fulfilled ?rs \<noteq> []" by (simp add: fulfilled_Nil_iff set_batch_results)
    show "rejection (mutateBatchAsync mutationFn batchSize order items) = None"
      unfolding rejection_run[OF assms(1)] using f by simp
    show "resolved (mutateBatchAsync mutationFn batchSize order items)
              = Some \<lparr>data = fulfilled ?rs, totalBatches = length batches,
                       completedBatches = length (fulfilled ?rs), errors = rejected ?rs\<rparr>"
      unfolding resolved_run[OF assms(1)] using f assms(3) by simp
    show "rejected ?rs \<noteq> [] \<longleftrightarrow> (\<exists>i<length batches. isl (mutationFn i (batches ! i)))"
      by (simp add: rejected_Nil_iff set_batch_results)
  }
qed

theorem total_failure_rejects_witness:
  "chunkArray [10, 20 :: nat] 1 = Some [[10], [20]]
   \<and> [[10], [20 :: nat]] \<noteq> []
   \<and> {..<length [[10], [20 :: nat]]} \<subseteq> set [1, 0]
   \<and> isl (failing_at [0, 1] 0 [10]) \<and> isl (failing_at [0, 1] 1 [20])
   \<and> rejection (mutateBatchAsync (failing_at [0, 1]) 1 [1, 0] [10, 20])
       = Some (''failed batch'', 0)
   \<and> resolved (mutateBatchAsync (failing_at [0, 1]) 1 [1, 0] [10, 20]) = None
   \<and> isl (failing_at [0] 0 [10]) \<and> \<not> isl (failing_at [0] 1 [20])
   \<and> rejection (mutateBatchAsync (failing_at [0]) 1 [1, 0] [10, 20]) = None
   \<and> resolved (mutateBatchAsync (failing_at [0]) 1 [1, 0] [10, 20])
       = Some \<lparr>data = [[20]], totalBatches = 2, completedBatches = 1,
                errors = [(''failed batch'', 0)]\<rparr>"
proof -
  have c: "chunkArray [10, 20 :: nat] 1 = Some [[10], [20]]"
    by (simp add: chunkArray_def chunkArray_loop.simps slice_def)
  have n: "[[10], [20 :: nat]] \<noteq> []" by simp
  have s: "{..<length [[10], [20 :: nat]]} \<subseteq> set [1, 0]"
    by (simp add: lessThan_Suc numeral_2_eq_2)
  have a: "\<forall>i<length [[10], [20 :: nat]]. isl (failing_at [0, 1] i ([[10], [20]] ! i))"
    by (simp add: failing_at_def less_Suc_eq numeral_2_eq_2)
  have p: "projl (failing_at [0, 1] 0 ([[10], [20 :: nat]] ! 0)) = (''failed batch'', 0)"
    by (simp add: failing_at_def)
  have b: "\<exists>i<length [[10], [20 :: nat]]. \<not> isl (failing_at [0] i ([[10], [20]] ! i))"
    by (rule exI[of _ 1]) (simp add: failing_at_def)
  have i: "isl (failing_at [0, 1] 0 [10]) \<and> isl (failing_at [0, 1] 1 [20])
           \<and> isl (failing_at [0] 0 [10]) \<and> \<not> isl (failing_at [0] 1 [20])"
    by (simp add: failing_at_def)
  have r: "batch_results (failing_at [0]) [[10], [20 :: nat]] = [Inl (''failed batch'', 0), Inr [20]]"
    by (simp add: batch_results_def failing_at_def)
  from total_failure_rejects[OF c n s, of "failing_at [0, 1]"] a p
  have 1: "rejection (mutateBatchAsync (failing_at [0, 1]) 1 [1, 0] [10, 20])
             = Some (''failed batch'', 0)
           \<and> resolved (mutateBatchAsync (failing_at [0, 1]) 1 [1, 0] [10, 20]) = None"
    by simp
  from total_failure_rejects[OF c n s, of "failing_at [0]"] b
  have 2: "rejection (mutateBatchAsync (failing_at [0]) 1 [1, 0] [10, 20]) = None
           \<and> resolved (mutateBatchAsync (failing_at [0]) 1 [1, 0] [10, 20])
               = Some \<lparr>data = [[20]], totalBatches = 2, completedBatches = 1,
                        errors = [(''failed batch'', 0)]\<rparr>"
    unfolding r by simp
  from c n s i 1 2 show ?thesis by blast
qed

text \<open>
  Claim C6. With no items, whatever the batch size and whatever the environment does, the
  invocation resolves with \<^verbatim>\<open>{data: [], totalBatches: 0, completedBatches: 0, errors: []}\<close>,
  the only call of \<^verbatim>\<open>setProgress\<close> is the reset to 0, and the per-batch operation is
  never called.
\<close>

theorem empty_items_resolve:
  "mutateBatchAsync mutationFn batchSize order []
   = Some \<lparr>outcome = Inr \<lparr>data = [], totalBatches = 0, completedBatches = 0, errors = []\<rparr>,
           progress_calls = [0], dispatched = []\<rparr>"
  by (rule run_empty) (rule chunkArray_Nil)

theorem empty_items_resolve_witness:
  "mutateBatchAsync (failing_at [0]) (- 5) [3, 1] []
   = Some \<lparr>outcome = Inr \<lparr>data = [], totalBatches = 0, completedBatches = 0, errors = []\<rparr>,
           progress_calls = [0], dispatched = []\<rparr>"
  by (rule empty_items_resolve)

text \<open>
  Claim C7. Whatever the order in which the per-batch promises settle, as long as all of
  them do, the run is the same; and in the result it resolves with, \<^verbatim>\<open>data\<close> holds the
  results of the fulfilled batches in increasing batch index and \<^verbatim>\<open>errors\<close> the errors of
  the rejected batches in increasing batch index.
\<close>

theorem aggregation_order_independent:
  assumes "chunkArray items batchSize = Some batches"
    and "{..<length batches} \<subseteq> set order"
    and "{..<length batches} \<subseteq> set order'"
  shows "mutateBatchAsync mutationFn batchSize order items
           = mutateBatchAsync mutationFn batchSize order' items
       \<and> (\<forall>r. resolved (mutateBatchAsync mutationFn batchSize order items) = Some r \<longrightarrow>
              data r = map (\<lambda>i. projr (mutationFn i (batches ! i)))
                         (filter (\<lambda>i. \<not> isl (mutationFn i (batches ! i))) [0..<length batches])
            \<and> errors r = map (\<lambda>i. projl (mutationFn i (batches ! i)))
                           (filter (\<lambda>i. isl (mutationFn i (batches ! i))) [0..<length batches]))"
proof (intro conjI allI impI)
  show "mutateBatchAsync mutationFn batchSize order items
           = mutateBatchAsync mutationFn batchSize order' items"
  proof (cases "batches = []")
    case True
    with assms(1) show ?thesis by (simp add: run_empty)
  next
    case False
    show ?thesis
      unfolding run_nonempty[OF assms(1) False] using assms(2,3) by simp
  qed
next
  fix r
  assume "resolved (mutateBatchAsync mutationFn batchSize order items) = Some r"
  then have r: "r = \<lparr>data = fulfilled (batch_results mutationFn batches),
                     totalBatches = length batches,
                     completedBatches = length (fulfilled (batch_results mutationFn batches)),
                     errors = rejected (batch_results mutationFn batches)\<rparr>"
    unfolding resolved_run[OF assms(1)] by (simp split: if_splits)
  show "data r = map (\<lambda>i. projr (mutationFn i (batches ! i)))
                         (filter (\<lambda>i. \<not> isl (mutationFn i (batches ! i))) [0..<length batches])"
    using r by (simp add: batch_results_def fulfilled_map)
  show "errors r = map (\<lambda>i. projl (mutationFn i (batches ! i)))
                           (filter (\<lambda>i. isl (mutationFn i (batches ! i))) [0..<length batches])"
    using r by (simp add: batch_results_def rejected_map)
qed

theorem aggregation_order_independent_witness:
  "chunkArray [10, 20, 30 :: nat] 1 = Some [[10], [20], [30]]
   \<and> {..<length [[10], [20], [30 :: nat]]} \<subseteq> set [2, 0, 1]
   \<and> {..<length [[10], [20], [30 :: nat]]} \<subseteq> set [0, 1, 2]
   \<and> mutateBatchAsync (failing_at [1]) 1 [2, 0, 1] [10, 20, 30]
       = mutateBatchAsync (failing_at [1]) 1 [0, 1, 2] [10, 20, 30]
   \<and> resolved (mutateBatchAsync (failing_at [1]) 1 [2, 0, 1] [10, 20, 30])
       = Some \<lparr>data = [[10], [30]], totalBatches = 3, completedBatches = 2,
                errors = [(''failed batch'', 1)]\<rparr>"
proof -
  have c: "chunkArray [10, 20, 30 :: nat] 1 = Some [[10], [20], [30]]"
    by (simp add: chunkArray_def chunkArray_loop.simps slice_def)
  have s: "{..<length [[10], [20], [30 :: nat]]} \<subseteq> set [2, 0, 1]"
    by (simp add: lessThan_Suc numeral_3_eq_3)
  have s': "{..<length [[10], [20], [30 :: nat]]} \<subseteq> set [0, 1, 2]"
    by (simp add: lessThan_Suc numeral_3_eq_3)
  have v: "resolved (mutateBatchAsync (failing_at [1]) 1 [2, 0, 1] [10, 20, 30])
       = Some \<lparr>data = [[10], [30]], totalBatches = 3, completedBatches = 2,
                errors = [(''failed batch'', 1)]\<rparr>"
    by (simp add: run_eval)
  from aggregation_order_independent[OF c s s', of "failing_at [1]"]
  have "mutateBatchAsync (failing_at [1]) 1 [2, 0, 1] [10, 20, 30]
       = mutateBatchAsync (failing_at [1]) 1 [0, 1, 2] [10, 20, 30]" by blast
  with c s s' v show ?thesis by blast
qed

section \<open>Progress of an invocation\<close>

lemma progress_settled_state:
  "progress (settled_state mutationFn batches S) = progress_of (card S) (length batches)"
  by (simp add: progress_def settled_state_def last_map del: upt_Suc)

lemma completedCount_settled_state:
  "completedCount (settled_state mutationFn batches S) = card S"
  by (simp add: settled_state_def)

lemma card_settled_le: "card (S \<inter> {..<n :: nat}) \<le> n"
  using card_mono[of "{..<n}" "S \<inter> {..<n}"] by simp

text \<open>
  Claim C4, as the code has it. In the state \<open>st\<close> of an invocation after any sequence of
  settlements, the progress is 0 when there are no batches. With at least one batch (and
  fewer than \<open>2\<^sup>3\<^sup>2\<close>, the bound of a JavaScript array), \<^verbatim>\<open>setProgress\<close> has been called once at
  the reset and once for every settlement; the progress lies between 0 and 100; a further
  settlement never decreases it; it is the exact \<open>round(100 * settled / total)\<close>, unless that
  quotient lies exactly halfway between two integers, where it is either that value or the
  integer below it; it is 100 when every batch has settled; and in an invocation of fewer
  than 200 batches it is 100 only when every batch has settled.
\<close>

theorem progress_of_invocation:
  assumes "st = fold (settle mutationFn batches) order (dispatch batches)"
  shows "(batches = [] \<longrightarrow> progress st = 0)
       \<and> (batches \<noteq> [] \<and> length batches < 2 ^ 32 \<longrightarrow>
            length (progress_log st) = Suc (completedCount st)
          \<and> completedCount st \<le> length batches
          \<and> 0 \<le> progress st \<and> progress st \<le> 100
          \<and> progress st \<le> progress (settle mutationFn batches index st)
          \<and> (progress st
                = Math_round (100 * of_nat (completedCount st) / of_nat (length batches))
              \<or> frac (100 * of_nat (completedCount st) / of_nat (length batches) :: rat) = 1 / 2
                \<and> progress st
                    = Math_round (100 * of_nat (completedCount st) / of_nat (length batches)) - 1)
          \<and> (completedCount st = length batches \<longrightarrow> progress st = 100)
          \<and> (length batches < 200 \<and> progress st = 100 \<longrightarrow>
                completedCount st = length batches))"
proof (intro conjI impI)
  let ?n = "length batches"
  let ?S = "set order \<inter> {..<?n}"
  have st: "st = settled_state mutationFn batches ?S"
    using assms by (simp add: fold_settle)
  have c: "completedCount st = card ?S" by (simp add: st completedCount_settled_state)
  have p: "progress st = progress_of (card ?S) ?n" by (simp add: st progress_settled_state)
  have le: "card ?S \<le> ?n" by (rule card_settled_le)
  {
    assume "batches = []"
    then show "progress st = 0" by (simp add: p progress_of_0)
  }
  assume "batches \<noteq> [] \<and> length batches < 2 ^ 32"
  then have n: "0 < ?n" and bound: "?n < 2 ^ 32" by simp_all
  have fin: "finite ?S" by simp
  have sub: "?S \<subseteq> {..<?n}" by simp
  let ?S' = "?S \<union> ({index} \<inter> {..<?n})"
  have st': "settle mutationFn batches index st = settled_state mutationFn batches ?S'"
    unfolding st by (rule settle_state[OF fin sub])
  have "card ?S \<le> card ?S'" by (rule card_mono) simp_all
  then show "progress st \<le> progress (settle mutationFn batches index st)"
    unfolding st' p progress_settled_state by (rule progress_of_mono)
  show "length (progress_log st) = Suc (completedCount st)"
    by (simp add: st settled_state_def)
  show "completedCount st \<le> ?n" using c le by simp
  show "0 \<le> progress st" "progress st \<le> 100"
    unfolding p using progress_of_range[OF n le] by simp_all
  show "progress st = Math_round (100 * of_nat (completedCount st) / of_nat ?n)
        \<or> frac (100 * of_nat (completedCount st) / of_nat ?n :: rat) = 1 / 2
          \<and> progress st = Math_round (100 * of_nat (completedCount st) / of_nat ?n) - 1"
    unfolding p c by (rule progress_of_exact[OF n bound le])
  {
    assume "completedCount st = ?n"
    then show "progress st = 100" using progress_of_all[OF n] by (simp add: p c)
  }
  {
    assume a: "?n < 200 \<and> progress st = 100"
    then have "card ?S = ?n"
      using progress_of_100_only_at_end[OF n _ le] by (simp add: p)
    then show "completedCount st = ?n" by (simp add: c)
  }
qed

lemma chunks_spec_1: "chunks_spec (Suc 0) xs = map (\<lambda>x. [x]) xs"
proof (induction xs)
  case Nil
  show ?case by simp
next
  case (Cons x xs)
  then show ?case by (simp add: chunks_spec_step)
qed

lemma chunkArray_singletons: "chunkArray [0..<n] 1 = Some (singleton_batches n)"
  using chunkArray_spec[of 1 "[0..<n]"] by (simp add: chunks_spec_1 singleton_batches_def)

lemma length_singleton_batches: "length (singleton_batches n) = n"
  by (simp add: singleton_batches_def)

lemma fold_settle_prefix:
  assumes "k \<le> n"
  shows "fold (settle mutationFn (singleton_batches n)) [0..<k] (dispatch (singleton_batches n))
         = settled_state mutationFn (singleton_batches n) {0..<k}"
proof -
  have "{0..<k} \<inter> {..<n} = {0..<k}" using assms by auto
  then show ?thesis by (simp add: fold_settle length_singleton_batches)
qed

theorem progress_of_invocation_witness:
  "[[10], [20], [30 :: nat]] \<noteq> []
   \<and> length [[10], [20], [30 :: nat]] < 2 ^ 32
   \<and> completedCount (fold (settle (failing_at [1]) [[10], [20], [30]]) [2, 0, 1]
                        (dispatch [[10], [20], [30 :: nat]])) = length [[10], [20], [30 :: nat]]
   \<and> length [[10], [20], [30 :: nat]] < 200
   \<and> progress (fold (settle (failing_at [1]) [[10], [20], [30]]) [2, 0, 1]
                  (dispatch [[10], [20], [30 :: nat]])) = 100"
proof -
  have n: "[[10], [20], [30 :: nat]] \<noteq> []" by simp
  have b: "length [[10], [20], [30 :: nat]] < 2 ^ 32" by simp
  have c: "completedCount (fold (settle (failing_at [1]) [[10], [20], [30]]) [2, 0, 1]
                        (dispatch [[10], [20], [30 :: nat]])) = length [[10], [20], [30 :: nat]]"
    by (simp add: settle_def dispatch_def Let_def)
  from progress_of_invocation[OF refl, of "[[10], [20], [30 :: nat]]" "failing_at [1]" "[2, 0, 1]" 0]
    n b c
  have "progress (fold (settle (failing_at [1]) [[10], [20], [30]]) [2, 0, 1]
                  (dispatch [[10], [20], [30 :: nat]])) = 100" by blast
  with n b c show ?thesis by simp
qed

text \<open>
  Claim C4 as stated says that the progress is never 100 before every batch has settled,
  and that it is \<open>round(100 * settled / total)\<close>. With 201 items in batches of one, after
  200 settlements the progress is already 100. With 40 items in batches of one, after 23
  settlements the progress is 57, since the product \<^verbatim>\<open>(23 / 40) * 100\<close> is the binary64 value
  just below 57.5, while \<open>round(57.5) = 58\<close>.
\<close>

theorem progress_100_before_completion_counterexample:
  "chunkArray [0..<201] 1 = Some (singleton_batches 201)
   \<and> length (singleton_batches 201) = 201
   \<and> completedCount (fold (settle (failing_at []) (singleton_batches 201)) [0..<200]
                        (dispatch (singleton_batches 201))) = 200
   \<and> progress (fold (settle (failing_at []) (singleton_batches 201)) [0..<200]
                  (dispatch (singleton_batches 201))) = 100
   \<and> chunkArray [0..<40] 1 = Some (singleton_batches 40)
   \<and> completedCount (fold (settle (failing_at []) (singleton_batches 40)) [0..<23]
                        (dispatch (singleton_batches 40))) = 23
   \<and> progress (fold (settle (failing_at []) (singleton_batches 40)) [0..<23]
                  (dispatch (singleton_batches 40))) = 57
   \<and> Math_round (100 * 23 / 40) = 58"
proof -
  have c1: "card {0..<200 :: nat} = 200" and c2: "card {0..<23 :: nat} = 23" by simp_all
  have p1: "progress_of 200 201 = 100" by code_simp
  have p2: "progress_of 23 40 = 57" by code_simp
  have r: "Math_round (100 * 23 / 40) = 58"
    unfolding Math_round_def by (rule floor_unique) simp_all
  show ?thesis
    unfolding fold_settle_prefix[of 200 201, simplified] fold_settle_prefix[of 23 40, simplified]
      progress_settled_state completedCount_settled_state length_singleton_batches c1 c2 p1 p2
    using r by (simp add: chunkArray_singletons)
qed

section \<open>The batch size is not validated\<close>

lemma chunkArray_None_iff: "chunkArray items sz = None \<longleftrightarrow> sz \<le> 0 \<and> items \<noteq> []"
proof (cases "0 < sz")
  case True
  then show ?thesis by (simp add: chunkArray_spec)
next
  case False
  show ?thesis
  proof (cases "items = []")
    case True
    then show ?thesis by (simp add: chunkArray_Nil)
  next
    case nonempty: False
    with False show ?thesis by (simp add: chunkArray_diverges)
  qed
qed

text \<open>
  Claim C5, as the code has it. Neither the chunker nor an orchestrator checks the batch
  size: no configuration error is raised and the size is not clamped. The chunker returns
  exactly when the size is positive or there are no items: then it returns a partition of
  the items, the empty sequence when there are no items, whatever the size. With a
  non-positive size and at least one item the chunker never returns (in particular it does
  not chunk as for the size 1); then the invocation of the imperative orchestrator never
  settles, it neither resolves nor rejects, and the render of the cached orchestrator never
  returns. With no items the imperative orchestrator resolves with the empty result,
  whatever the size.
\<close>

theorem chunkArray_defined:
  "(chunkArray items sz = None \<longleftrightarrow> sz \<le> 0 \<and> items \<noteq> [])
   \<and> (0 < sz \<or> items = [] \<longrightarrow>
        (\<exists>chunks. chunkArray items sz = Some chunks \<and> concat chunks = items))
   \<and> chunkArray [] sz = Some []
   \<and> (sz \<le> 0 \<and> items \<noteq> [] \<longrightarrow>
          chunkArray items sz \<noteq> chunkArray items 1
        \<and> mutateBatchAsync mutationFn sz order items = None
        \<and> rejection (mutateBatchAsync mutationFn sz order items) = None
        \<and> resolved (mutateBatchAsync mutationFn sz order items) = None)
   \<and> (useBatchQuery truthy_data truthy_error useQuery queryKey sz items = None
        \<longleftrightarrow> sz \<le> 0 \<and> items \<noteq> [])
   \<and> resolved (mutateBatchAsync mutationFn sz order [])
       = Some \<lparr>data = [], totalBatches = 0, completedBatches = 0, errors = []\<rparr>"
proof (intro conjI impI)
  show "chunkArray items sz = None \<longleftrightarrow> sz \<le> 0 \<and> items \<noteq> []"
    by (rule chunkArray_None_iff)
next
  assume "0 < sz \<or> items = []"
  then show "\<exists>chunks. chunkArray items sz = Some chunks \<and> concat chunks = items"
  proof
    assume "0 < sz"
    then show ?thesis by (simp add: chunkArray_spec concat_chunks_spec)
  next
    assume "items = []"
    then show ?thesis by (simp add: chunkArray_Nil)
  qed
next
  show "chunkArray [] sz = Some []" by (rule chunkArray_Nil)
next
  assume a: "sz \<le> 0 \<and> items \<noteq> []"
  then have none: "chunkArray items sz = None" by (simp add: chunkArray_None_iff)
  show "chunkArray items sz \<noteq> chunkArray items 1" by (simp add: none chunkArray_spec)
  show run: "mutateBatchAsync mutationFn sz order items = None"
    by (simp add: mutateBatchAsync_def none)
  show "rejection (mutateBatchAsync mutationFn sz order items) = None"
    by (simp add: run rejection_def)
  show "resolved (mutateBatchAsync mutationFn sz order items) = None"
    by (simp add: run resolved_def)
next
  show "useBatchQuery truthy_data truthy_error useQuery queryKey sz items = None
        \<longleftrightarrow> sz \<le> 0 \<and> items \<noteq> []"
    using chunkArray_None_iff[of items sz]
    by (cases "chunkArray items sz") (simp_all add: useBatchQuery_def)
next
  show "resolved (mutateBatchAsync mutationFn sz order [])
       = Some \<lparr>data = [], totalBatches = 0, completedBatches = 0, errors = []\<rparr>"
    by (simp add: run_empty[OF chunkArray_Nil] resolved_def)
qed

theorem chunkArray_defined_witness:
  "(0 :: int) \<le> 0 \<and> [1 :: nat] \<noteq> []
   \<and> chunkArray [1 :: nat] 0 = None
   \<and> chunkArray [1 :: nat] 0 \<noteq> chunkArray [1] 1
   \<and> mutateBatchAsync (failing_at []) 0 [0] [1] = None
   \<and> useBatchQuery truthy_number truthy_object
        (cache_all (query_pending :: (int, string) UseQueryResult)) [KString ''users''] 0 [1 :: nat]
       = None
   \<and> (0 :: int) < 2
   \<and> chunkArray [1, 2, 3 :: nat] 2 = Some [[1, 2], [3]]
   \<and> chunkArray ([] :: nat list) (- 3) = Some []
   \<and> resolved (mutateBatchAsync (failing_at [0]) 0 [0] [])
       = Some \<lparr>data = [], totalBatches = 0, completedBatches = 0, errors = []\<rparr>"
proof -
  have h: "(0 :: int) \<le> 0 \<and> [1 :: nat] \<noteq> []" by simp
  note bad = chunkArray_defined[of "[1 :: nat]" 0 "failing_at []" "[0]" truthy_number truthy_object
      "cache_all (query_pending :: (int, string) UseQueryResult)" "[KString ''users'']"]
  from bad h have 1: "chunkArray [1 :: nat] 0 = None" by blast
  from bad h have 2: "chunkArray [1 :: nat] 0 \<noteq> chunkArray [1] 1" by blast
  from bad h have 3: "mutateBatchAsync (failing_at []) 0 [0] [1] = None" by blast
  from bad h have 4: "useBatchQuery truthy_number truthy_object
        (cache_all (query_pending :: (int, string) UseQueryResult)) [KString ''users''] 0 [1 :: nat]
       = None" by blast
  have p: "(0 :: int) < 2" by simp
  have v: "chunkArray [1, 2, 3 :: nat] 2 = Some [[1, 2], [3]]"
    by (simp add: chunkArray_def chunkArray_loop.simps slice_def)
  from chunkArray_defined[of "[] :: nat list" "- 3" "failing_at [0]" "[0]" truthy_number
      truthy_object "cache_all (query_pending :: (int, string) UseQueryResult)" "[KString ''users'']"]
  have a: "chunkArray ([] :: nat list) (- 3) = Some []" by blast
  from chunkArray_defined[of "[] :: nat list" 0 "failing_at [0]" "[0]" truthy_number
      truthy_object "cache_all (query_pending :: (int, string) UseQueryResult)" "[KString ''users'']"]
  have b: "resolved (mutateBatchAsync (failing_at [0]) 0 [0] [])
       = Some \<lparr>data = [], totalBatches = 0, completedBatches = 0, errors = []\<rparr>" by blast
  from h 1 2 3 4 p v a b show ?thesis by blast
qed

text \<open>
  Claim C5 as stated says that a non-positive size gives a configuration error (or is
  clamped to one) and that the chunker terminates for every integer size. On one item the
  loop of the chunker never leaves for the sizes 0 and -1: the index does not advance, and
  the invocation of the orchestrator never settles.
\<close>

theorem chunkArray_nonpositive_size_counterexample:
  "chunkArray [1 :: nat] 0 = None
   \<and> chunkArray [1 :: nat] (- 1) = None
   \<and> mutateBatchAsync (failing_at []) 0 [0] [1] = None"
  by (simp add: chunkArray_diverges mutateBatchAsync_def)

section \<open>Cache keys\<close>



section \<open>The aggregated view of the cached orchestrator\<close>

lemma query_step_tuple:
  "query_step td te q (s, e, c)
   = (if q_isSuccess q \<and> js_truthy td (q_data q) then (s @ [the (q_data q)], e, c + 1)
      else if q_isError q \<and> js_truthy te (q_error q) then (s, e @ [the (q_error q)], c + 1)
      else (s, e, c))"
  by (simp add: query_step_def)

lemma fold_query_step:
  "fold (query_step td te) queries (s, e, c)
   = (s @ map (\<lambda>q. the (q_data q)) (filter (\<lambda>q. q_isSuccess q \<and> js_truthy td (q_data q)) queries),
      e @ map (\<lambda>q. the (q_error q))
            (filter (\<lambda>q. \<not> (q_isSuccess q \<and> js_truthy td (q_data q))
                          \<and> q_isError q \<and> js_truthy te (q_error q)) queries),
      c + length (filter (\<lambda>q. q_isSuccess q \<and> js_truthy td (q_data q)
                              \<or> q_isError q \<and> js_truthy te (q_error q)) queries))"
proof (induction queries arbitrary: s e c)
  case Nil
  show ?case by simp
next
  case (Cons q queries)
  show ?case by (simp add: query_step_tuple Cons)
qed

lemma useBatchQuery_result_fields:
  "isSuccess (useBatchQuery_result td te batches queries) = list_all q_isSuccess queries"
  "error (useBatchQuery_result td te batches queries)
     = (case find q_isError queries of
          None \<Rightarrow> None
        | Some query \<Rightarrow> if js_truthy te (q_error query) then q_error query else None)"
  "data (aggregated (useBatchQuery_result td te batches queries))
     = map (\<lambda>q. the (q_data q)) (filter (\<lambda>q. q_isSuccess q \<and> js_truthy td (q_data q)) queries)"
  "completedBatches (aggregated (useBatchQuery_result td te batches queries))
     = length (filter q_isSuccess queries)"
  "totalBatches (aggregated (useBatchQuery_result td te batches queries)) = length batches"
  by (simp_all add: useBatchQuery_result_def fold_query_step)

lemmas query_eval = query_success_def query_error_def query_pending_def truthy_number_def
  truthy_object_def

text \<open>
  The flags computed from the queries. The overall \<^verbatim>\<open>isSuccess\<close> flag is true if and only if
  every query is in the success state; the top-level error is \<^verbatim>\<open>null\<close> when no query is in an
  error state, and it is the error of the first query in an error state when that error is
  a truthy value.
\<close>

lemma useBatchQuery_flags:
  "(isSuccess (useBatchQuery_result truthy_data truthy_error batches queries)
      \<longleftrightarrow> (\<forall>q \<in> set queries. q_isSuccess q))
   \<and> ((\<forall>q \<in> set queries. \<not> q_isError q) \<longrightarrow>
        error (useBatchQuery_result truthy_data truthy_error batches queries) = None)
   \<and> (i < length queries \<and> q_isError (queries ! i) \<and> (\<forall>j<i. \<not> q_isError (queries ! j))
        \<and> q_error (queries ! i) = Some e \<and> truthy_error e \<longrightarrow>
        error (useBatchQuery_result truthy_data truthy_error batches queries) = Some e)"
proof (intro conjI impI)
  show "isSuccess (useBatchQuery_result truthy_data truthy_error batches queries)
      \<longleftrightarrow> (\<forall>q \<in> set queries. q_isSuccess q)"
    by (simp add: useBatchQuery_result_fields list_all_iff)
next
  assume "\<forall>q \<in> set queries. \<not> q_isError q"
  then have "find q_isError queries = None" by (simp add: find_None_iff)
  then show "error (useBatchQuery_result truthy_data truthy_error batches queries) = None"
    by (simp add: useBatchQuery_result_fields)
next
  assume a: "i < length queries \<and> q_isError (queries ! i) \<and> (\<forall>j<i. \<not> q_isError (queries ! j))
        \<and> q_error (queries ! i) = Some e \<and> truthy_error e"
  then have "find q_isError queries = Some (queries ! i)"
    unfolding find_Some_iff by blast
  with a show "error (useBatchQuery_result truthy_data truthy_error batches queries) = Some e"
    by (simp add: useBatchQuery_result_fields)
qed

text \<open>
  Claim C9: the top-level error is the error of the first batch, by batch index, that is in
  an error state. The code departs from it at a falsy error. One batch whose query is in the
  error state with the number 0 as its error, as after \<^verbatim>\<open>Promise.reject(0)\<close>: the hook reports
  \<^verbatim>\<open>isError\<close> true and the top-level error \<^verbatim>\<open>null\<close>, because \<^verbatim>\<open>0 || null\<close> is \<^verbatim>\<open>null\<close>. The
  imperative orchestrator rejects with the same error value as it is.
\<close>

theorem first_error_falsy_dropped:
  "q_isError (query_error (0 :: int) :: (nat, int) UseQueryResult)
   \<and> q_error (query_error (0 :: int) :: (nat, int) UseQueryResult) = Some 0
   \<and> isError (useBatchQuery_result truthy_object truthy_number [[1 :: nat]]
        [query_error (0 :: int) :: (nat, int) UseQueryResult])
   \<and> error (useBatchQuery_result truthy_object truthy_number [[1 :: nat]]
        [query_error (0 :: int) :: (nat, int) UseQueryResult]) = None
   \<and> map_option error
        (useBatchQuery truthy_object truthy_number
           (cache_all (query_error (0 :: int) :: (nat, int) UseQueryResult))
           [KString ''users''] 1 [1 :: nat]) = Some None
   \<and> rejection (mutateBatchAsync (rejecting_with (0 :: int) :: (nat, nat, int) batch_fn)
        1 [0] [1]) = Some 0"
  by (simp add: useBatchQuery_def useBatchQuery_keys_def cache_all_def useBatchQuery_result_def
      query_step_def query_eval run_eval rejecting_with_def)

section \<open>What completedBatches counts\<close>

text \<open>
  In every result the imperative orchestrator resolves with, \<open>completedBatches = len(data)\<close>
  and \<open>completedBatches + len(errors) = totalBatches\<close>. In the view of the cached orchestrator
  \<open>completedBatches\<close> is the number of queries in the success state, and \<open>data\<close> holds the data
  of those among them whose data is truthy.
\<close>

lemma completedBatches_counts_successes:
  "(\<forall>r. resolved (mutateBatchAsync mutationFn batchSize order items) = Some r \<longrightarrow>
        completedBatches r = length (data r)
      \<and> completedBatches r + length (errors r) = totalBatches r)
   \<and> completedBatches (aggregated (useBatchQuery_result truthy_data truthy_error batches queries))
       = length (filter q_isSuccess queries)
   \<and> length (data (aggregated (useBatchQuery_result truthy_data truthy_error batches queries)))
       \<le> completedBatches (aggregated (useBatchQuery_result truthy_data truthy_error batches queries))
   \<and> ((\<forall>q \<in> set queries. q_isSuccess q \<longrightarrow> js_truthy truthy_data (q_data q)) \<longrightarrow>
        length (data (aggregated (useBatchQuery_result truthy_data truthy_error batches queries)))
        = completedBatches (aggregated (useBatchQuery_result truthy_data truthy_error batches queries)))"
proof (intro conjI allI impI)
  fix r
  assume res: "resolved (mutateBatchAsync mutationFn batchSize order items) = Some r"
  then obtain bs where c: "chunkArray items batchSize = Some bs"
    using resolved_imp_chunked by blast
  from res have r: "r = \<lparr>data = fulfilled (batch_results mutationFn bs),
                     totalBatches = length bs,
                     completedBatches = length (fulfilled (batch_results mutationFn bs)),
                     errors = rejected (batch_results mutationFn bs)\<rparr>"
    unfolding resolved_run[OF c] by (simp split: if_splits)
  show "completedBatches r = length (data r)" using r by simp
  show "completedBatches r + length (errors r) = totalBatches r"
    using r length_fulfilled_rejected[of "batch_results mutationFn bs"]
    by (simp add: length_batch_results)
next
  show "completedBatches (aggregated (useBatchQuery_result truthy_data truthy_error batches queries))
       = length (filter q_isSuccess queries)"
    by (simp add: useBatchQuery_result_fields)
next
  have "length (filter (\<lambda>q. q_isSuccess q \<and> js_truthy truthy_data (q_data q)) queries)
        \<le> length (filter q_isSuccess queries)"
    by (induction queries) auto
  then show "length (data (aggregated (useBatchQuery_result truthy_data truthy_error batches queries)))
       \<le> completedBatches (aggregated (useBatchQuery_result truthy_data truthy_error batches queries))"
    by (simp add: useBatchQuery_result_fields)
next
  assume "\<forall>q \<in> set queries. q_isSuccess q \<longrightarrow> js_truthy truthy_data (q_data q)"
  then have "filter (\<lambda>q. q_isSuccess q \<and> js_truthy truthy_data (q_data q)) queries
             = filter q_isSuccess queries"
    by (intro filter_cong) auto
  then show "length (data (aggregated (useBatchQuery_result truthy_data truthy_error batches queries)))
        = completedBatches (aggregated (useBatchQuery_result truthy_data truthy_error batches queries))"
    by (simp add: useBatchQuery_result_fields)
qed

text \<open>
  Claim C10: \<open>completedBatches = len(data)\<close>, also in the view of the cached orchestrator.
  The code departs from it at falsy data. One batch whose query is in the success state
  with the number 0 as its data: the batch is counted in \<open>completedBatches\<close> and the overall
  \<^verbatim>\<open>isSuccess\<close> is true, but its data is left out of \<open>data\<close> and the progress stays 0, because
  \<^verbatim>\<open>query.isSuccess && query.data\<close> is falsy. The imperative orchestrator aggregates the same
  result value.
\<close>

theorem success_falsy_data_dropped:
  "q_isSuccess (query_success (0 :: int) :: (int, string) UseQueryResult)
   \<and> q_data (query_success (0 :: int) :: (int, string) UseQueryResult) = Some 0
   \<and> aggregated (useBatchQuery_result truthy_number truthy_object [[1 :: nat]]
        [query_success (0 :: int) :: (int, string) UseQueryResult])
     = \<lparr>data = [], totalBatches = 1, completedBatches = 1, errors = []\<rparr>
   \<and> isSuccess (useBatchQuery_result truthy_number truthy_object [[1 :: nat]]
        [query_success (0 :: int) :: (int, string) UseQueryResult])
   \<and> progress_value (useBatchQuery_result truthy_number truthy_object [[1 :: nat]]
        [query_success (0 :: int) :: (int, string) UseQueryResult]) = 0
   \<and> map_option aggregated
        (useBatchQuery truthy_number truthy_object
           (cache_all (query_success (0 :: int) :: (int, string) UseQueryResult))
           [KString ''users''] 1 [1 :: nat])
     = Some \<lparr>data = [], totalBatches = 1, completedBatches = 1, errors = []\<rparr>
   \<and> resolved (mutateBatchAsync (resolving_with (0 :: int) :: (nat, int, string) batch_fn)
        1 [0] [1])
     = Some \<lparr>data = [0], totalBatches = 1, completedBatches = 1, errors = []\<rparr>"
  by (simp add: useBatchQuery_def useBatchQuery_keys_def cache_all_def useBatchQuery_result_def
      query_step_def query_eval run_eval resolving_with_def progress_of_0)

end
